theory Spec2Isabelle
  imports Complex_Main
begin

section \<open>Inclusion masks from exclusion layers (reV/supply_curve/exclusions.py)\<close>

text \<open>
  The development embeds \<^verbatim>\<open>LayerMask\<close> and \<^verbatim>\<open>ExclusionMask\<close> of
  \<^verbatim>\<open>reV/supply_curve/exclusions.py\<close>. A two-dimensional numpy array is a list of rows.
  Raw raster values, weights and areas are real numbers (the finite values the Python and
  numpy numbers hold). The masks are float16 arrays: \<^verbatim>\<open>astype('float16')\<close> and every
  product of mask values round to IEEE binary16 as numpy does. Two things are outside the
  model: the float64 rounding of the quotient \<^verbatim>\<open>min_area / ex_area\<close> and the int64
  range of the slice arithmetic. Python exceptions are values of type \<open>error\<close>, returned
  as \<open>Inl\<close>.
\<close>

subsection \<open>Arrays and errors\<close>

type_synonym 'a ndarray = "'a list list"

type_synonym cell = "nat \<times> nat"

datatype error = ValueError | RuntimeError | TypeError | ZeroDivisionError

subsection \<open>float16\<close>

text \<open>
  A value of numpy's \<^verbatim>\<open>float16\<close> (IEEE binary16): a finite value with its sign
  (true is negative) and its magnitude, so that both zeros exist, an infinity with its
  sign, or NaN. The type does not restrict the magnitude to the representable ones: the
  casts and the product below only return representable magnitudes, and what is proved
  for every value of the type holds for every float16 value.
\<close>

datatype float16 = Finite bool real | Infinity bool | NaN

text \<open>
  The spacing of the float16 values around a magnitude \<open>x\<close>: 2 to the power -24 below
  2 to the power -13 (subnormal values and the first binade), doubling with every binade,
  up to 32 in the last one.
\<close>

fun quantum :: "nat \<Rightarrow> real \<Rightarrow> real \<Rightarrow> real" where
  "quantum 0 u x = u"
| "quantum (Suc n) u x = (if x < 2048 * u then u else quantum n (2 * u) x)"

text \<open>Rounding to the nearest integer, a tie to the even one.\<close>

definition round_half_even :: "real \<Rightarrow> int" where
  "round_half_even x =
     (let f = \<lfloor>x\<rfloor>; d = x - of_int f
      in if d < 1 / 2 then f else if 1 / 2 < d then f + 1 else if even f then f else f + 1)"

text \<open>
  Rounding a magnitude \<open>x\<close> with sign \<open>s\<close> to float16: to the nearest multiple of the
  spacing; from 65520 on, half-way between the largest value 65504 and 65536, to infinity.
\<close>

definition float16_round :: "bool \<Rightarrow> real \<Rightarrow> float16" where
  "float16_round s x =
     (if 65520 \<le> x then Infinity s
      else (let u = quantum 29 (1 / 16777216) x
            in Finite s (of_int (round_half_even (x / u)) * u)))"

text \<open>The casts \<^verbatim>\<open>astype('float16')\<close> of a number and of a boolean.\<close>

definition float16_of_real :: "real \<Rightarrow> float16" where
  "float16_of_real x = float16_round (x < 0) \<bar>x\<bar>"

definition float16_of_bool :: "bool \<Rightarrow> float16" where
  "float16_of_bool b = Finite False (if b then 1 else 0)"

text \<open>
  Zero, one, the float16 product (the exact product of the two values, rounded once; an
  infinity times zero is NaN) and the IEEE comparisons (false whenever NaN is involved).
\<close>

instantiation float16 :: "{zero, one, times, ord}"
begin

definition zero_float16 :: float16 where
  "zero_float16 = Finite False 0"

definition one_float16 :: float16 where
  "one_float16 = Finite False 1"

fun times_float16 :: "float16 \<Rightarrow> float16 \<Rightarrow> float16" where
  "times_float16 (Finite s a) (Finite t b) = float16_round (s \<noteq> t) (a * b)"
| "times_float16 (Finite s a) (Infinity t) = (if a = 0 then NaN else Infinity (s \<noteq> t))"
| "times_float16 (Infinity s) (Finite t b) = (if b = 0 then NaN else Infinity (s \<noteq> t))"
| "times_float16 (Infinity s) (Infinity t) = Infinity (s \<noteq> t)"
| "times_float16 NaN y = NaN"
| "times_float16 x NaN = NaN"

fun less_float16 :: "float16 \<Rightarrow> float16 \<Rightarrow> bool" where
  "less_float16 (Finite s a) (Finite t b) \<longleftrightarrow> (if s then - a else a) < (if t then - b else b)"
| "less_float16 (Finite s a) (Infinity t) \<longleftrightarrow> \<not> t"
| "less_float16 (Infinity s) (Finite t b) \<longleftrightarrow> s"
| "less_float16 (Infinity s) (Infinity t) \<longleftrightarrow> s \<and> \<not> t"
| "less_float16 NaN y \<longleftrightarrow> False"
| "less_float16 x NaN \<longleftrightarrow> False"

fun less_eq_float16 :: "float16 \<Rightarrow> float16 \<Rightarrow> bool" where
  "less_eq_float16 (Finite s a) (Finite t b) \<longleftrightarrow> (if s then - a else a) \<le> (if t then - b else b)"
| "less_eq_float16 (Finite s a) (Infinity t) \<longleftrightarrow> \<not> t"
| "less_eq_float16 (Infinity s) (Finite t b) \<longleftrightarrow> s"
| "less_eq_float16 (Infinity s) (Infinity t) \<longleftrightarrow> s \<or> \<not> t"
| "less_eq_float16 NaN y \<longleftrightarrow> False"
| "less_eq_float16 x NaN \<longleftrightarrow> False"

instance ..

end

subsection \<open>LayerMask\<close>

text \<open>
  The attributes set by \<^verbatim>\<open>LayerMask.__init__\<close>. \<open>inclusion_range\<close> is the pair
  (min threshold, max threshold); \<open>None\<close> is Python's \<^verbatim>\<open>None\<close>.
\<close>

record LayerMask =
  layer :: string
  inclusion_range :: "real option \<times> real option"
  exclude_values :: "real list option"
  include_values :: "real list option"
  as_weights :: bool
  weight :: real
  mask_type :: "string option"

text \<open>
  The loop of \<^verbatim>\<open>_check_mask_type\<close> over the dictionary \<^verbatim>\<open>masks\<close>, in insertion
  order: the first true entry names the mask type, a second true entry raises
  \<^verbatim>\<open>RuntimeError\<close>.
\<close>

fun check_masks :: "(string \<times> bool) list \<Rightarrow> string option \<Rightarrow> error + string option" where
  "check_masks [] mtype = Inr mtype"
| "check_masks ((k, v) # rest) mtype =
     (if v then (case mtype of
                   None \<Rightarrow> check_masks rest (Some k)
                 | Some _ \<Rightarrow> Inl RuntimeError)
      else check_masks rest mtype)"

definition check_mask_type ::
  "real option \<times> real option \<Rightarrow> real list option \<Rightarrow> real list option \<Rightarrow> bool
     \<Rightarrow> error + string option" where
  "check_mask_type rng excl incl use_as_weights =
     (if \<not> use_as_weights then
        check_masks [(''range'', fst rng \<noteq> None \<or> snd rng \<noteq> None),
                     (''exclude'', excl \<noteq> None),
                     (''include'', incl \<noteq> None)] None
      else Inr None)"

text \<open>\<^verbatim>\<open>LayerMask.__init__\<close>: the weight is checked first, then the mask type.\<close>

definition LayerMask_init ::
  "string \<Rightarrow> real option \<times> real option \<Rightarrow> real list option \<Rightarrow> real list option \<Rightarrow> bool
     \<Rightarrow> real \<Rightarrow> error + LayerMask" where
  "LayerMask_init lname rng excl incl use_as_weights w =
     (if w > 1 \<or> w < 0 then Inl ValueError
      else (case check_mask_type rng excl incl use_as_weights of
              Inl e \<Rightarrow> Inl e
            | Inr mt \<Rightarrow> Inr \<lparr>layer = lname, inclusion_range = rng, exclude_values = excl,
                            include_values = incl, as_weights = use_as_weights, weight = w,
                            mask_type = mt\<rparr>))"

text \<open>
  \<^verbatim>\<open>_range_mask\<close>: \<^verbatim>\<open>mask = True\<close>, replaced by \<^verbatim>\<open>data >= min\<close> when a minimum is
  given and multiplied by \<^verbatim>\<open>data <= max\<close> when a maximum is given.
\<close>

definition range_mask :: "LayerMask \<Rightarrow> real ndarray \<Rightarrow> bool ndarray" where
  "range_mask lm data =
     map (map (\<lambda>v. (case fst (inclusion_range lm) of None \<Rightarrow> True | Some lo \<Rightarrow> v \<ge> lo)
                  \<and> (case snd (inclusion_range lm) of None \<Rightarrow> True | Some hi \<Rightarrow> v \<le> hi))) data"

text \<open>\<^verbatim>\<open>_value_mask\<close>: \<^verbatim>\<open>np.isin(data, values)\<close>, negated when \<^verbatim>\<open>include\<close> is false.\<close>

definition isin :: "'a ndarray \<Rightarrow> 'a list \<Rightarrow> bool ndarray" where
  "isin data vals = map (map (\<lambda>v. v \<in> set vals)) data"

definition value_mask :: "real ndarray \<Rightarrow> real list option \<Rightarrow> bool \<Rightarrow> bool ndarray" where
  "value_mask data vals incl =
     (let found = isin data (case vals of None \<Rightarrow> [] | Some vs \<Rightarrow> vs)
      in if \<not> incl then map (map Not) found else found)"

definition exclusion_mask :: "LayerMask \<Rightarrow> real ndarray \<Rightarrow> bool ndarray" where
  "exclusion_mask lm data = value_mask data (exclude_values lm) False"

definition inclusion_mask :: "LayerMask \<Rightarrow> real ndarray \<Rightarrow> bool ndarray" where
  "inclusion_mask lm data = value_mask data (include_values lm) True"

text \<open>
  \<^verbatim>\<open>_apply_mask\<close>: unless the layer is used as weights, the mask type selects the
  boolean mask function and any other mask type raises \<^verbatim>\<open>ValueError\<close>. The last line,
  \<^verbatim>\<open>data.astype('float16') * self._weight\<close>, casts the boolean mask (true is 1, false
  is 0) or, for a layer used as weights, the raw values to float16 and multiplies by the
  weight: numpy casts the Python float to float16 and takes the float16 product.
\<close>

definition astype_float16 :: "real ndarray \<Rightarrow> float16 ndarray" where
  "astype_float16 data = map (map float16_of_real) data"

definition astype_float :: "bool ndarray \<Rightarrow> float16 ndarray" where
  "astype_float b = map (map float16_of_bool) b"

definition times_weight :: "float16 ndarray \<Rightarrow> real \<Rightarrow> float16 ndarray" where
  "times_weight data w = map (map (\<lambda>v. v * float16_of_real w)) data"

definition apply_mask :: "LayerMask \<Rightarrow> real ndarray \<Rightarrow> error + float16 ndarray" where
  "apply_mask lm data =
     (if \<not> as_weights lm then
        (if mask_type lm = Some ''range'' then
           Inr (times_weight (astype_float (range_mask lm data)) (weight lm))
         else if mask_type lm = Some ''exclude'' then
           Inr (times_weight (astype_float (exclusion_mask lm data)) (weight lm))
         else if mask_type lm = Some ''include'' then
           Inr (times_weight (astype_float (inclusion_mask lm data)) (weight lm))
         else Inl ValueError)
      else Inr (times_weight (astype_float16 data) (weight lm)))"

subsection \<open>Windows and slicing\<close>

text \<open>
  One entry of an indexing tuple: a slice with optional start and stop (no step), an
  explicit index sequence, or \<^verbatim>\<open>...\<close>. A window \<^verbatim>\<open>ds_slice\<close> is a tuple of entries.
  The sub-slice that recovers the requested window is always a pair of slices, each
  given by its start and stop.
\<close>

datatype index = Slice "int option" "int option" | Indices "int list" | Ellipsis

type_synonym pyslice = "int option \<times> int option"

text \<open>Python's \<^verbatim>\<open>xs[start:stop]\<close>: a negative bound counts from the end, and both are clipped.\<close>

definition slice_bound :: "nat \<Rightarrow> int \<Rightarrow> nat" where
  "slice_bound len i = (if i < 0 then nat (max 0 (i + int len)) else min (nat i) len)"

definition py_slice :: "pyslice \<Rightarrow> 'a list \<Rightarrow> 'a list" where
  "py_slice sl xs =
     (let s = (case fst sl of None \<Rightarrow> 0 | Some i \<Rightarrow> slice_bound (length xs) i);
          e = (case snd sl of None \<Rightarrow> length xs | Some i \<Rightarrow> slice_bound (length xs) i)
      in take (e - s) (drop s xs))"

text \<open>\<^verbatim>\<open>mask[sub_slice]\<close> for a pair of slices: rows first, then columns.\<close>

definition getitem_slices :: "'a ndarray \<Rightarrow> pyslice \<times> pyslice \<Rightarrow> 'a ndarray" where
  "getitem_slices a sub_slice = map (py_slice (snd sub_slice)) (py_slice (fst sub_slice) a)"

text \<open>
  \<^verbatim>\<open>_increase_mask_slice\<close>. \<open>shape\<close> is \<^verbatim>\<open>self.shape\<close>. A tuple of two slices is
  padded by \<open>n\<close> times its extent on each side and clamped to the domain; anything else
  passes through with the sub-slice \<^verbatim>\<open>(slice(None), slice(None))\<close>. Subtracting a
  \<^verbatim>\<open>None\<close> bound raises \<^verbatim>\<open>TypeError\<close>. The arithmetic is that of unbounded
  integers: \<^verbatim>\<open>np.abs\<close> makes the extent an int64, so the code agrees with this
  only while every intermediate value fits 64 bits.
\<close>

definition increase_mask_slice ::
  "nat \<times> nat \<Rightarrow> index list \<Rightarrow> int \<Rightarrow> error + (index list \<times> pyslice \<times> pyslice)" where
  "increase_mask_slice shape ds_slice n =
     (case ds_slice of
        [Slice (Some y_start) (Some y_stop), Slice (Some x_start) (Some x_stop)] \<Rightarrow>
          (let y_diff = n * \<bar>y_stop - y_start\<bar>;
               x_diff = n * \<bar>x_stop - x_start\<bar>;
               y_new_start = max 0 (y_start - y_diff);
               x_new_start = max 0 (x_start - x_diff);
               y_new_stop = min (int (fst shape)) (y_stop + y_diff);
               x_new_stop = min (int (snd shape)) (x_stop + x_diff);
               new_slice = [Slice (Some y_new_start) (Some y_new_stop),
                            Slice (Some x_new_start) (Some x_new_stop)];
               y_sub_start = (if y_new_start = y_start then 0 else n * y_diff);
               x_sub_start = (if x_new_start = x_start then 0 else n * x_diff);
               y_sub_stop = y_sub_start + y_diff;
               x_sub_stop = x_sub_start + x_diff
           in Inr (new_slice, (Some y_sub_start, Some y_sub_stop),
                              (Some x_sub_start, Some x_sub_stop)))
      | [Slice _ _, Slice _ _] \<Rightarrow> Inl TypeError
      | _ \<Rightarrow> Inr (ds_slice, (None, None), (None, None)))"

subsection \<open>Contiguous area filter\<close>

text \<open>
  The kernel names accepted by \<^verbatim>\<open>ExclusionMask.__init__\<close> and the structuring
  elements of \<^verbatim>\<open>FILTER_KERNELS\<close>.
\<close>

datatype kernel = Queen | Rook

definition FILTER_KERNELS :: "kernel \<Rightarrow> nat ndarray" where
  "FILTER_KERNELS k = (case k of
       Queen \<Rightarrow> [[1, 1, 1], [1, 1, 1], [1, 1, 1]]
     | Rook \<Rightarrow> [[0, 1, 0], [1, 1, 1], [0, 1, 0]])"

text \<open>
  \<^verbatim>\<open>scipy.ndimage.label(input, structure)\<close>: every true cell of \<open>input\<close> is a
  feature cell; two feature cells are neighbours when the 3 x 3 structuring element,
  centred on one, is non-zero at the other; every connected group of feature cells gets
  one label, the groups being numbered 1, 2, ... in the order in which a row-by-row scan
  meets them; all other cells get 0. The model scans the cells and flood-fills each
  group from its first cell.
\<close>

definition in_bounds :: "'a ndarray \<Rightarrow> cell \<Rightarrow> bool" where
  "in_bounds a p \<longleftrightarrow> fst p < length a \<and> snd p < length (a ! fst p)"

definition item :: "'a ndarray \<Rightarrow> cell \<Rightarrow> 'a" where
  "item a p = a ! fst p ! snd p"

definition feature :: "bool ndarray \<Rightarrow> cell \<Rightarrow> bool" where
  "feature inp p \<longleftrightarrow> in_bounds inp p \<and> item inp p"

definition neighbours :: "nat ndarray \<Rightarrow> cell \<Rightarrow> cell list" where
  "neighbours s p =
     concat (map (\<lambda>di. concat (map (\<lambda>dj.
        if s ! di ! dj \<noteq> 0 \<and> 1 \<le> fst p + di \<and> 1 \<le> snd p + dj
        then [(fst p + di - 1, snd p + dj - 1)] else []) [0..<3])) [0..<3])"

function flood :: "nat ndarray \<Rightarrow> bool ndarray \<Rightarrow> cell list \<Rightarrow> cell list \<Rightarrow> cell list" where
  "flood s inp [] seen = seen"
| "flood s inp (p # todo) seen =
     (if p \<in> set seen \<or> \<not> feature inp p then flood s inp todo seen
      else flood s inp (neighbours s p @ todo) (p # seen))"
  by pat_completeness auto
termination
proof (relation "measures [\<lambda>(s, inp, todo, seen). card ({p. feature inp p} - set seen),
                           \<lambda>(s, inp, todo, seen). length todo]")
  show "wf (measures [\<lambda>(s, inp, todo, seen). card ({p. feature inp p} - set seen),
                      \<lambda>(s, inp, todo, seen). length todo])"
    by simp
next
  fix s :: "nat ndarray" and inp :: "bool ndarray" and p :: cell and todo seen :: "cell list"
  assume "p \<in> set seen \<or> \<not> feature inp p"
  then show "((s, inp, todo, seen), (s, inp, p # todo, seen))
        \<in> measures [\<lambda>(s, inp, todo, seen). card ({p. feature inp p} - set seen),
                     \<lambda>(s, inp, todo, seen). length todo]"
    by simp
next
  fix s :: "nat ndarray" and inp :: "bool ndarray" and p :: cell and todo seen :: "cell list"
  assume a: "\<not> (p \<in> set seen \<or> \<not> feature inp p)"
  have "{p. feature inp p} \<subseteq> (SIGMA i:{..<length inp}. {..<length (inp ! i)})"
    by (auto simp: feature_def in_bounds_def)
  then have fin: "finite {p. feature inp p}"
    by (rule finite_subset) simp
  have "{p. feature inp p} - set (p # seen) \<subset> {p. feature inp p} - set seen"
    using a by auto
  then have "card ({p. feature inp p} - set (p # seen)) < card ({p. feature inp p} - set seen)"
    using fin by (intro psubset_card_mono) auto
  then show "((s, inp, neighbours s p @ todo, p # seen), (s, inp, p # todo, seen))
        \<in> measures [\<lambda>(s, inp, todo, seen). card ({p. feature inp p} - set seen),
                     \<lambda>(s, inp, todo, seen). length todo]"
    by simp
qed

definition paint :: "cell list \<Rightarrow> nat \<Rightarrow> nat ndarray \<Rightarrow> nat ndarray" where
  "paint ps v labs =
     map (\<lambda>i. map (\<lambda>j. if (i, j) \<in> set ps then v else labs ! i ! j) [0..<length (labs ! i)])
       [0..<length labs]"

fun label_scan :: "nat ndarray \<Rightarrow> bool ndarray \<Rightarrow> cell list \<Rightarrow> nat ndarray \<times> nat
    \<Rightarrow> nat ndarray \<times> nat" where
  "label_scan s inp [] (labs, n) = (labs, n)"
| "label_scan s inp (p # ps) (labs, n) =
     (if item inp p \<and> item labs p = 0
      then label_scan s inp ps (paint (flood s inp [p] []) (Suc n) labs, Suc n)
      else label_scan s inp ps (labs, n))"

definition cells :: "'a ndarray \<Rightarrow> cell list" where
  "cells a = concat (map (\<lambda>i. map (\<lambda>j. (i, j)) [0..<length (a ! i)]) [0..<length a])"

definition label :: "bool ndarray \<Rightarrow> nat ndarray \<Rightarrow> nat ndarray \<times> nat" where
  "label inp s = label_scan s inp (cells inp) (map (map (\<lambda>_. 0)) inp, 0)"

text \<open>
  \<^verbatim>\<open>np.unique(labels, return_counts=True)\<close> on the flattened array: the sorted
  distinct values and how often each occurs.
\<close>

definition unique_counts :: "nat list \<Rightarrow> nat list \<times> nat list" where
  "unique_counts xs = (let l = sort (remdups xs) in (l, map (count_list xs) l))"

text \<open>\<^verbatim>\<open>a[sel] = v\<close> for a boolean array \<open>sel\<close> of the shape of \<open>a\<close>.\<close>

definition assign_where :: "'a ndarray \<Rightarrow> bool ndarray \<Rightarrow> 'a \<Rightarrow> 'a ndarray" where
  "assign_where a sel v = map2 (map2 (\<lambda>x b. if b then v else x)) a sel"

text \<open>
  \<^verbatim>\<open>_area_filter\<close>. The first entry of the sorted labels and of their counts is
  skipped (\<^verbatim>\<open>c[1:]\<close>, \<^verbatim>\<open>l[1:]\<close>); the labels among the rest whose count is below
  \<^verbatim>\<open>ceil(min_area / ex_area)\<close> are set to 0 in the mask. Dividing by a zero
  \<^verbatim>\<open>ex_area\<close> raises \<^verbatim>\<open>ZeroDivisionError\<close>. The mask is the float16 array of
  \<^verbatim>\<open>_generate_mask\<close>; the quotient is the exact one (numpy rounds it to float64
  before \<^verbatim>\<open>np.ceil\<close>, which can move the threshold by one when the exact quotient is
  an integer or within rounding of one).
\<close>

definition area_filter ::
  "float16 ndarray \<Rightarrow> real \<Rightarrow> kernel \<Rightarrow> real \<Rightarrow> error + float16 ndarray" where
  "area_filter m min_area kern ex_area =
     (let s = FILTER_KERNELS kern;
          labels = fst (label (map (map (\<lambda>v. v > 0)) m) s);
          (l, c) = unique_counts (concat labels)
      in if ex_area = 0 then Inl ZeroDivisionError
         else
           (let min_counts = real_of_int \<lceil>min_area / ex_area\<rceil>;
                pos = map (\<lambda>k. real k < min_counts) (tl c);
                bad_labels = map fst (filter snd (zip (tl l) pos))
            in Inr (assign_where m (isin labels bad_labels) 0)))"

subsection \<open>Combining the layers\<close>

text \<open>\<^verbatim>\<open>mask *= layer_mask\<close>: the elementwise float16 product.\<close>

definition mult_arrays :: "float16 ndarray \<Rightarrow> float16 ndarray \<Rightarrow> float16 ndarray" where
  "mult_arrays a b = map2 (map2 (*)) a b"

text \<open>
  The loop of \<^verbatim>\<open>_generate_mask\<close> over the layers, in insertion order. \<open>excl_h5\<close>
  is the store's windowed read \<^verbatim>\<open>self.excl_h5[(layer.layer, ) + ds_slice]\<close>, a
  parameter here (class \<^verbatim>\<open>ExclusionLayers\<close> is external to this module); a failing
  read is outside the model. The accumulator starts as \<^verbatim>\<open>None\<close>.
\<close>

fun combine_layers ::
  "(string \<Rightarrow> index list \<Rightarrow> real ndarray) \<Rightarrow> index list \<Rightarrow> LayerMask list
     \<Rightarrow> float16 ndarray option \<Rightarrow> error + float16 ndarray option" where
  "combine_layers excl_h5 ds_slice [] acc = Inr acc"
| "combine_layers excl_h5 ds_slice (lm # rest) acc =
     (case apply_mask lm (excl_h5 (layer lm) ds_slice) of
        Inl e \<Rightarrow> Inl e
      | Inr layer_mask \<Rightarrow>
          combine_layers excl_h5 ds_slice rest
            (Some (case acc of None \<Rightarrow> layer_mask | Some m \<Rightarrow> mult_arrays m layer_mask)))"

text \<open>
  \<^verbatim>\<open>_generate_mask\<close> on the indexing tuple \<open>ds_slice\<close>. \<open>shape\<close> is the domain
  shape, \<open>layers\<close> the values of \<^verbatim>\<open>self._layers\<close> in insertion order, \<open>min_area\<close> and
  \<open>kern\<close> the attributes set by \<^verbatim>\<open>__init__\<close>. With a minimum area the window is
  enlarged with \<open>n = 1\<close>, the combined mask is filtered with the default pixel area
  0.0081 and cut back with the sub-slice. With no layer the mask stays \<^verbatim>\<open>None\<close>, and
  the comparison \<^verbatim>\<open>mask > 0\<close> of the filter raises \<^verbatim>\<open>TypeError\<close>.
\<close>

definition generate_mask ::
  "(string \<Rightarrow> index list \<Rightarrow> real ndarray) \<Rightarrow> nat \<times> nat \<Rightarrow> LayerMask list \<Rightarrow> real option
     \<Rightarrow> kernel \<Rightarrow> index list \<Rightarrow> error + float16 ndarray option" where
  "generate_mask excl_h5 shape layers min_area kern ds_slice =
     (case min_area of
        None \<Rightarrow> combine_layers excl_h5 ds_slice layers None
      | Some a \<Rightarrow>
          (case increase_mask_slice shape ds_slice 1 of
             Inl e \<Rightarrow> Inl e
           | Inr (new_slice, sub_slice) \<Rightarrow>
               (case combine_layers excl_h5 new_slice layers None of
                  Inl e \<Rightarrow> Inl e
                | Inr None \<Rightarrow> Inl TypeError
                | Inr (Some m) \<Rightarrow>
                    (case area_filter m a kern (81 / 10000) of
                       Inl e \<Rightarrow> Inl e
                     | Inr filtered \<Rightarrow> Inr (Some (getitem_slices filtered sub_slice))))))"

subsection \<open>Auxiliary notions for the proofs\<close>

text \<open>The output of one layer's policy on the window, and one step of the product.\<close>

definition layer_output ::
  "(string \<Rightarrow> index list \<Rightarrow> real ndarray) \<Rightarrow> index list \<Rightarrow> LayerMask \<Rightarrow> float16 ndarray" where
  "layer_output excl_h5 ds_slice lm = projr (apply_mask lm (excl_h5 (layer lm) ds_slice))"

definition accumulate ::
  "float16 ndarray \<Rightarrow> float16 ndarray option \<Rightarrow> float16 ndarray option" where
  "accumulate layer_mask acc =
     Some (case acc of None \<Rightarrow> layer_mask | Some m \<Rightarrow> mult_arrays m layer_mask)"

text \<open>
  The boolean input \<^verbatim>\<open>mask > 0\<close> of the labelling, and the labels that
  \<^verbatim>\<open>_area_filter\<close> sets to zero, for a threshold \<open>min_counts\<close>.
\<close>

definition positive :: "float16 ndarray \<Rightarrow> bool ndarray" where
  "positive m = map (map (\<lambda>v. v > 0)) m"

definition bad_labels_of :: "nat ndarray \<Rightarrow> real \<Rightarrow> nat list" where
  "bad_labels_of labels min_counts =
     (let (l, c) = unique_counts (concat labels)
      in map fst (filter snd (zip (tl l) (map (\<lambda>k. real k < min_counts) (tl c)))))"

text \<open>
  Two feature cells are adjacent when one is a neighbour of the other under the
  structuring element; the region of a cell is everything reachable from it through
  adjacent feature cells.
\<close>

definition adjacent :: "nat ndarray \<Rightarrow> bool ndarray \<Rightarrow> (cell \<times> cell) set" where
  "adjacent s inp = {(p, q). feature inp p \<and> feature inp q \<and> q \<in> set (neighbours s p)}"

definition region :: "nat ndarray \<Rightarrow> bool ndarray \<Rightarrow> cell \<Rightarrow> cell set" where
  "region s inp p = (adjacent s inp)\<^sup>* `` {p}"

text \<open>
  The invariant of the scan: labels are at most \<open>n\<close>, only feature cells are labelled, a
  labelled cell shares its label with its whole region, and with nothing else.
\<close>

definition labelled :: "kernel \<Rightarrow> bool ndarray \<Rightarrow> nat ndarray \<Rightarrow> nat \<Rightarrow> bool" where
  "labelled k inp labs n \<longleftrightarrow>
     map length labs = map length inp
   \<and> (\<forall>p. in_bounds inp p \<longrightarrow> item labs p \<le> n)
   \<and> (\<forall>p. in_bounds inp p \<longrightarrow> item labs p \<noteq> 0 \<longrightarrow> feature inp p)
   \<and> (\<forall>p q. in_bounds inp p \<longrightarrow> item labs p \<noteq> 0 \<longrightarrow> q \<in> region (FILTER_KERNELS k) inp p
          \<longrightarrow> item labs q = item labs p)
   \<and> (\<forall>p q. in_bounds inp p \<longrightarrow> in_bounds inp q \<longrightarrow> item labs p \<noteq> 0
          \<longrightarrow> item labs q = item labs p \<longrightarrow> q \<in> region (FILTER_KERNELS k) inp p)"

text \<open>A numpy array is rectangular: all rows have one length.\<close>

definition rect :: "'a ndarray \<Rightarrow> bool" where
  "rect a \<longleftrightarrow> (\<forall>r \<in> set a. length r = length (hd a))"

text \<open>Two policies and a store with two 2 x 2 layers, used to instantiate the theorems.\<close>

definition slope_layer :: LayerMask where
  "slope_layer = \<lparr>layer = ''slope'', inclusion_range = (None, Some 5), exclude_values = None,
     include_values = None, as_weights = False, weight = 1 / 2, mask_type = Some ''range''\<rparr>"

definition landuse_layer :: LayerMask where
  "landuse_layer = \<lparr>layer = ''landuse'', inclusion_range = (None, None),
     exclude_values = Some [3], include_values = None, as_weights = False, weight = 1,
     mask_type = Some ''exclude''\<rparr>"

definition two_layer_store :: "string \<Rightarrow> index list \<Rightarrow> real ndarray" where
  "two_layer_store lname ds_slice = (if lname = ''slope'' then [[3, 7], [5, 6]] else [[3, 1], [2, 3]])"

text \<open>The first \<open>h\<close> rows and \<open>w\<close> columns of an array: the slice \<^verbatim>\<open>a[0:h, 0:w]\<close>.\<close>

definition topleft :: "nat \<Rightarrow> nat \<Rightarrow> 'a ndarray \<Rightarrow> 'a ndarray" where
  "topleft h w a = map (take w) (take h a)"

text \<open>
  Modelled from the spec: the windowed read of the Raster Layer Store (class
  \<^verbatim>\<open>ExclusionLayers\<close> of \<^verbatim>\<open>reV/handlers/exclusions.py\<close> is not among the sources).
  The specification lets \<^verbatim>\<open>read(layer_name, window)\<close> return the layer's values
  "matching the requested window's shape and indexing mode": for a window of two slices
  the store returns that slice of the array it returns for the full-domain marker.
\<close>

definition windowed_store :: "(string \<Rightarrow> index list \<Rightarrow> real ndarray) \<Rightarrow> bool" where
  "windowed_store excl_h5 \<longleftrightarrow>
     (\<forall>lname a b c d. excl_h5 lname [Slice a b, Slice c d]
        = getitem_slices (excl_h5 lname [Ellipsis]) ((a, b), (c, d)))"

text \<open>
  A 100 x 100 layer whose row 15 is 1 and all other cells are 0, the same array as a
  float16 mask, a store that holds the layer as its only layer and is read through a
  window of two slices or the full-domain marker, and the policy that uses the layer as
  weights with weight 1.
\<close>

definition stripe_raw :: "real ndarray" where
  "stripe_raw = replicate 15 (replicate 100 0) @ replicate 100 1 # replicate 84 (replicate 100 0)"

definition stripe :: "float16 ndarray" where
  "stripe = replicate 15 (replicate 100 0) @ replicate 100 1 # replicate 84 (replicate 100 0)"

definition stripe_store :: "string \<Rightarrow> index list \<Rightarrow> real ndarray" where
  "stripe_store lname ds_slice =
     (case ds_slice of
        [Slice a b, Slice c d] \<Rightarrow> getitem_slices stripe_raw ((a, b), (c, d))
      | _ \<Rightarrow> stripe_raw)"

text \<open>
  A store whose layers are all the 1 x 1 array of the value 1, and the policy built by
  \<^verbatim>\<open>LayerMask(lname, use_as_weights=True, weight=w)\<close>.
\<close>

definition unit_store :: "string \<Rightarrow> index list \<Rightarrow> real ndarray" where
  "unit_store lname ds_slice = [[1]]"

definition weights_layer :: "string \<Rightarrow> real \<Rightarrow> LayerMask" where
  "weights_layer lname w = \<lparr>layer = lname, inclusion_range = (None, None),
     exclude_values = None, include_values = None, as_weights = True, weight = w,
     mask_type = None\<rparr>"

definition stripe_layer :: LayerMask where
  "stripe_layer = \<lparr>layer = ''stripe'', inclusion_range = (None, None), exclude_values = None,
     include_values = None, as_weights = True, weight = 1, mask_type = None\<rparr>"

section \<open>float16 arithmetic\<close>

text \<open>The product is commutative; it is not associative, as every product is rounded.\<close>

lemma float16_mult_commute: "(a :: float16) * b = b * a"
proof (cases a)
  case (Finite s x)
  then show ?thesis
    by (cases b) (auto simp: mult.commute intro!: arg_cong2 [where f = float16_round])
next
  case (Infinity s)
  then show ?thesis by (cases b) auto
next
  case NaN
  then show ?thesis by (cases b) auto
qed

lemma float16_zero_not_positive [simp]: "\<not> (0 :: float16) < 0"
  by (simp add: zero_float16_def)

lemma float16_zero_less_one [simp]: "(0 :: float16) < 1"
  by (simp add: zero_float16_def one_float16_def)

lemma float16_zero_neq_one [simp]: "(0 :: float16) \<noteq> 1" "(1 :: float16) \<noteq> 0"
  by (simp_all add: zero_float16_def one_float16_def)

lemma float16_of_bool_simps: "float16_of_bool True = 1" "float16_of_bool False = 0"
  by (simp_all add: float16_of_bool_def zero_float16_def one_float16_def)

text \<open>
  Rounding is stable: a magnitude that was rounded to float16 is a float16 value, and
  rounding it again returns it.
\<close>

lemma round_half_even_of_int: "round_half_even (of_int k) = k"
  by (simp add: round_half_even_def)

lemma round_half_even_ge:
  assumes "of_int k \<le> x"
  shows "k \<le> round_half_even x"
proof -
  have "k \<le> \<lfloor>x\<rfloor>" using assms by (simp add: le_floor_iff)
  then show ?thesis by (auto simp: round_half_even_def Let_def)
qed

lemma round_half_even_le:
  assumes "x \<le> of_int k"
  shows "round_half_even x \<le> k"
proof (cases "x = of_int k")
  case True
  then show ?thesis by (simp add: round_half_even_of_int)
next
  case False
  then have "x < of_int k" using assms by simp
  then have "\<lfloor>x\<rfloor> < k" by (simp add: floor_less_iff)
  then show ?thesis by (auto simp: round_half_even_def Let_def)
qed

lemma quantum_pos: "0 < u \<Longrightarrow> 0 < quantum n u x"
  by (induction n arbitrary: u) auto

lemma quantum_ge:
  assumes "0 < u"
  shows "u \<le> quantum n u x"
  using assms
proof (induction n arbitrary: u)
  case 0
  then show ?case by simp
next
  case (Suc n)
  have "2 * u \<le> quantum n (2 * u) x" using Suc.prems by (intro Suc.IH) simp
  then show ?case using Suc.prems by simp
qed

lemma quantum_lower:
  assumes "1024 * u \<le> x" and "0 < u"
  shows "1024 * quantum n u x \<le> x"
  using assms by (induction n arbitrary: u) auto

lemma quantum_first_or_lower:
  assumes "0 < u"
  shows "quantum n u x = u \<or> 1024 * quantum n u x \<le> x"
proof (cases n)
  case 0
  then show ?thesis by simp
next
  case (Suc k)
  show ?thesis
  proof (cases "x < 2048 * u")
    case True
    then show ?thesis using Suc by simp
  next
    case False
    then have "1024 * (2 * u) \<le> x" by simp
    then have "1024 * quantum k (2 * u) x \<le> x" using assms by (intro quantum_lower) simp_all
    then show ?thesis using Suc False by simp
  qed
qed

lemma quantum_stable:
  assumes "0 < u" and "0 \<le> x"
  shows "of_int (round_half_even
            (of_int (round_half_even (x / quantum n u x)) * quantum n u x
               / quantum n u (of_int (round_half_even (x / quantum n u x)) * quantum n u x)))
           * quantum n u (of_int (round_half_even (x / quantum n u x)) * quantum n u x)
         = of_int (round_half_even (x / quantum n u x)) * quantum n u x"
  using assms
proof (induction n arbitrary: u)
  case 0
  then show ?case by (simp add: round_half_even_of_int)
next
  case (Suc n)
  show ?case
  proof (cases "x < 2048 * u")
    case True
    let ?k = "round_half_even (x / u)"
    have q: "quantum (Suc n) u x = u" using True by simp
    have "x / u \<le> of_int 2048" using True Suc.prems(1) by (simp add: pos_divide_le_eq)
    then have k: "?k \<le> 2048" by (rule round_half_even_le)
    show ?thesis
    proof (cases "?k = 2048")
      case k2048: True
      have m: "of_int ?k * u = 2048 * u" using k2048 by simp
      have "quantum (Suc n) u (2048 * u) = quantum n (2 * u) (2048 * u)" by simp
      also have "\<dots> = 2 * u" using Suc.prems(1) by (cases n) simp_all
      finally have q2: "quantum (Suc n) u (2048 * u) = 2 * u" .
      have "2048 * u / (2 * u) = of_int 1024" using Suc.prems(1) by simp
      then have "round_half_even (2048 * u / (2 * u)) = 1024"
        by (simp only: round_half_even_of_int)
      then show ?thesis unfolding q m q2 by simp
    next
      case False
      then have "?k < 2048" using k by simp
      then have "of_int ?k * u < 2048 * u" using Suc.prems(1) by simp
      then have q2: "quantum (Suc n) u (of_int ?k * u) = u" by simp
      have "of_int ?k * u / u = of_int ?k" using Suc.prems(1) by simp
      then show ?thesis unfolding q q2 by (simp add: round_half_even_of_int)
    qed
  next
    case False
    let ?r = "quantum n (2 * u) x"
    let ?m = "of_int (round_half_even (x / ?r)) * ?r"
    have q: "quantum (Suc n) u x = ?r" using False by simp
    have rpos: "0 < ?r" using Suc.prems(1) by (intro quantum_pos) simp
    have low: "1024 * (2 * u) \<le> x" using False by simp
    then have "1024 * ?r \<le> x" using Suc.prems(1) by (intro quantum_lower) simp_all
    then have "of_int 1024 \<le> x / ?r" using rpos by (simp add: pos_le_divide_eq)
    then have "1024 \<le> round_half_even (x / ?r)" by (rule round_half_even_ge)
    then have "(1024 :: real) \<le> of_int (round_half_even (x / ?r))" by simp
    then have a: "1024 * ?r \<le> ?m" using rpos by (intro mult_right_mono) simp_all
    have "2 * u \<le> ?r"
      using Suc.prems(1) by (intro quantum_ge) simp
    then have "2048 * u \<le> 1024 * ?r" by simp
    with a have "\<not> ?m < 2048 * u" by linarith
    then have q2: "quantum (Suc n) u ?m = quantum n (2 * u) ?m" by simp
    have "0 < 2 * u" using Suc.prems(1) by simp
    from Suc.IH [OF this Suc.prems(2)] show ?thesis unfolding q q2 .
  qed
qed

lemma round_half_even_upper: "of_int (round_half_even x) \<le> x + 1"
proof -
  have "x \<le> of_int (\<lfloor>x\<rfloor> + 1)" by linarith
  then have "round_half_even x \<le> \<lfloor>x\<rfloor> + 1" by (rule round_half_even_le)
  then have "(of_int (round_half_even x) :: real) \<le> of_int (\<lfloor>x\<rfloor> + 1)" by (simp only: of_int_le_iff)
  also have "\<dots> \<le> x + 1" by simp
  finally show ?thesis .
qed

lemma float16_round_stable:
  assumes "0 \<le> x" and "x \<le> 32768"
  shows "\<exists>m. 0 \<le> m \<and> float16_round s x = Finite s m \<and> float16_round t m = Finite t m"
proof -
  let ?u = "1 / 16777216 :: real"
  let ?r = "quantum 29 ?u x"
  let ?m = "of_int (round_half_even (x / ?r)) * ?r"
  have rpos: "0 < ?r" by (intro quantum_pos) simp
  have r32: "?r \<le> 32"
    using quantum_first_or_lower [of ?u 29 x] assms(2) by auto
  have "of_int (round_half_even (x / ?r)) \<le> x / ?r + 1" by (rule round_half_even_upper)
  then have "?m \<le> (x / ?r + 1) * ?r" using rpos by (intro mult_right_mono) simp_all
  also have "\<dots> = x + ?r" using rpos by (simp add: field_simps)
  finally have small: "?m < 65520" using r32 assms(2) by simp
  have "of_int 0 \<le> x / ?r" using assms(1) rpos by simp
  then have "0 \<le> round_half_even (x / ?r)" by (rule round_half_even_ge)
  then have m0: "0 \<le> ?m" using rpos by simp
  have one: "float16_round s x = Finite s ?m"
    using assms(2) by (simp add: float16_round_def Let_def)
  have "of_int (round_half_even (?m / quantum 29 ?u ?m)) * quantum 29 ?u ?m = ?m"
    using assms(1) by (intro quantum_stable) simp_all
  then have two: "float16_round t ?m = Finite t ?m"
    using small by (simp add: float16_round_def Let_def)
  show ?thesis using m0 one two by blast
qed

lemma float16_round_zero: "float16_round s 0 = Finite s 0"
proof -
  have "round_half_even 0 = 0" using round_half_even_of_int [of 0] by simp
  then show ?thesis by (simp add: float16_round_def Let_def)
qed

lemma float16_weight_products:
  assumes "0 \<le> w" and "w \<le> 1"
  shows "1 * float16_of_real w = float16_of_real w" and "0 * float16_of_real w = 0"
proof -
  from float16_round_stable [of w False False] assms obtain m where
    m: "float16_round False w = Finite False m" "float16_round False m = Finite False m"
    by auto
  have w: "float16_of_real w = Finite False m"
    using assms(1) m(1) by (simp add: float16_of_real_def)
  show "1 * float16_of_real w = float16_of_real w"
    using m(2) by (simp add: w one_float16_def)
  show "0 * float16_of_real w = 0"
    by (simp add: w zero_float16_def float16_round_zero)
qed

section \<open>Layer policies\<close>

lemma check_mask_type_weights: "check_mask_type rng excl incl True = Inr None"
  by (simp add: check_mask_type_def)

text \<open>The policies used to instantiate the theorems are what the constructor builds.\<close>

lemma example_layers_constructed:
  "LayerMask_init ''slope'' (None, Some 5) None None False (1 / 2) = Inr slope_layer"
  "LayerMask_init ''landuse'' (None, None) (Some [3]) None False 1 = Inr landuse_layer"
  "LayerMask_init ''stripe'' (None, None) None None True 1 = Inr stripe_layer"
  by (simp_all add: LayerMask_init_def check_mask_type_def slope_layer_def landuse_layer_def
      stripe_layer_def)

lemma weights_layer_constructed:
  "0 \<le> w \<Longrightarrow> w \<le> 1 \<Longrightarrow> LayerMask_init lname (None, None) None None True w = Inr (weights_layer lname w)"
  by (simp add: LayerMask_init_def check_mask_type_def weights_layer_def)

text \<open>
  Claim C4, as amended: for a policy that is not used as weights, more than one of range
  bounds, exclude set and include set raises an error at construction; with a valid weight
  and none of them the construction succeeds with no mask type, and the error is raised
  by every later application of the policy.
\<close>

theorem check_mask_type_eager_and_deferred:
  "(((fst rng \<noteq> None \<or> snd rng \<noteq> None) \<and> excl \<noteq> None)
      \<or> ((fst rng \<noteq> None \<or> snd rng \<noteq> None) \<and> incl \<noteq> None)
      \<or> (excl \<noteq> None \<and> incl \<noteq> None)
     \<longrightarrow> (\<exists>e. LayerMask_init lname rng excl incl False w = Inl e))
   \<and> (0 \<le> w \<and> w \<le> 1 \<and> rng = (None, None) \<and> excl = None \<and> incl = None
     \<longrightarrow> (\<exists>lm. LayerMask_init lname rng excl incl False w = Inr lm
              \<and> mask_type lm = None
              \<and> (\<forall>data. apply_mask lm data = Inl ValueError)))"
  by (auto simp: LayerMask_init_def check_mask_type_def apply_mask_def)

theorem check_mask_type_eager_and_deferred_witness:
  "(\<exists>e. LayerMask_init ''slope'' (None, Some 5) (Some [1]) None False 1 = Inl e)
   \<and> (\<exists>lm. LayerMask_init ''slope'' (None, None) None None False 1 = Inr lm
          \<and> mask_type lm = None
          \<and> (\<forall>data. apply_mask lm data = Inl ValueError))"
  using check_mask_type_eager_and_deferred [of "(None, Some 5)" "Some [1]" None "''slope''" 1]
    check_mask_type_eager_and_deferred [of "(None, None)" None None "''slope''" 1]
  by simp

text \<open>
  Claim C4 as stated fails: a policy with none of the three specified is constructed
  without error, and its application raises \<^verbatim>\<open>ValueError\<close>.
\<close>

theorem missing_mask_type_deferred_counterexample:
  "LayerMask_init ''slope'' (None, None) None None False 1
     = Inr \<lparr>layer = ''slope'', inclusion_range = (None, None), exclude_values = None,
            include_values = None, as_weights = False, weight = 1, mask_type = None\<rparr>
   \<and> apply_mask \<lparr>layer = ''slope'', inclusion_range = (None, None), exclude_values = None,
            include_values = None, as_weights = False, weight = 1, mask_type = None\<rparr> [[3]]
     = Inl ValueError"
  by (simp add: LayerMask_init_def check_mask_type_def apply_mask_def)

lemma apply_mask_boolean_cells:
  assumes "0 \<le> w" and "w \<le> 1"
  shows "\<forall>row \<in> set (times_weight (astype_float b) w). \<forall>v \<in> set row. v = 0 \<or> v = float16_of_real w"
proof (intro ballI)
  fix row v assume "row \<in> set (times_weight (astype_float b) w)" "v \<in> set row"
  then obtain c where "v = float16_of_bool c * float16_of_real w"
    by (auto simp: times_weight_def astype_float_def)
  then show "v = 0 \<or> v = float16_of_real w"
    using float16_weight_products [OF assms] by (cases c) (simp_all add: float16_of_bool_simps)
qed

text \<open>
  Claim C8, as amended: for a boolean-type policy (mask type range, exclude or include, not
  used as weights) with a weight \<open>w\<close> in [0, 1], the application succeeds and every value
  of the output is 0 or the float16 value nearest to \<open>w\<close>.
\<close>

theorem apply_mask_boolean_values:
  assumes "\<not> as_weights lm"
    and "mask_type lm = Some ''range'' \<or> mask_type lm = Some ''exclude''
           \<or> mask_type lm = Some ''include''"
    and "0 \<le> weight lm" and "weight lm \<le> 1"
  shows "\<exists>out. apply_mask lm data = Inr out
           \<and> (\<forall>row \<in> set out. \<forall>v \<in> set row. v = 0 \<or> v = float16_of_real (weight lm))"
  using assms(1,2) apply_mask_boolean_cells [OF assms(3,4)]
  by (auto simp: apply_mask_def)

theorem apply_mask_boolean_values_witness:
  "\<not> as_weights slope_layer \<and> mask_type slope_layer = Some ''range''
   \<and> 0 \<le> weight slope_layer \<and> weight slope_layer \<le> 1
   \<and> (\<exists>out. apply_mask slope_layer [[3, 7], [5, 6]] = Inr out
     \<and> (\<forall>row \<in> set out. \<forall>v \<in> set row. v = 0 \<or> v = float16_of_real (weight slope_layer)))"
proof -
  have h: "\<not> as_weights slope_layer"
    "mask_type slope_layer = Some ''range'' \<or> mask_type slope_layer = Some ''exclude''
       \<or> mask_type slope_layer = Some ''include''"
    "0 \<le> weight slope_layer" "weight slope_layer \<le> 1"
    by (simp_all add: slope_layer_def)
  show ?thesis
    using h apply_mask_boolean_values [OF h, of "[[3, 7], [5, 6]]"]
    by (simp add: slope_layer_def)
qed

text \<open>
  Claim C8 as stated fails: with weight 0.3 the value of an included cell is the float16
  value 1229 / 4096, which is neither 0 nor 0.3.
\<close>

theorem apply_mask_rounds_weight_counterexample:
  "LayerMask_init ''slope'' (None, Some 5) None None False (3 / 10)
     = Inr \<lparr>layer = ''slope'', inclusion_range = (None, Some 5), exclude_values = None,
            include_values = None, as_weights = False, weight = 3 / 10,
            mask_type = Some ''range''\<rparr>
   \<and> apply_mask \<lparr>layer = ''slope'', inclusion_range = (None, Some 5), exclude_values = None,
       include_values = None, as_weights = False, weight = 3 / 10,
       mask_type = Some ''range''\<rparr> [[3]]
     = Inr [[Finite False (1229 / 4096)]]
   \<and> Finite False (1229 / 4096) \<noteq> (0 :: float16)
   \<and> Finite False (1229 / 4096) \<noteq> Finite False (3 / 10)"
proof (intro conjI)
  show "LayerMask_init ''slope'' (None, Some 5) None None False (3 / 10)
     = Inr \<lparr>layer = ''slope'', inclusion_range = (None, Some 5), exclude_values = None,
            include_values = None, as_weights = False, weight = 3 / 10,
            mask_type = Some ''range''\<rparr>"
    by (simp add: LayerMask_init_def check_mask_type_def)
  show "apply_mask \<lparr>layer = ''slope'', inclusion_range = (None, Some 5), exclude_values = None,
       include_values = None, as_weights = False, weight = 3 / 10,
       mask_type = Some ''range''\<rparr> [[3]]
     = Inr [[Finite False (1229 / 4096)]]"
    by code_simp
  show "Finite False (1229 / 4096) \<noteq> (0 :: float16)"
    by (simp add: zero_float16_def)
  show "Finite False (1229 / 4096) \<noteq> Finite False (3 / 10)"
    by simp
qed



section \<open>Window expansion\<close>

text \<open>
  With factor 1, when on each axis the requested start is 0 or at least the extent of the
  range (so the padded start is not clamped to a different distance), the sub-slice starts
  at the distance from the padded start to the requested start and has the requested
  extent. The bounds keep the int64 arithmetic of the code in range.
\<close>

lemma increase_mask_slice_unclamped:
  assumes "0 \<le> y_start" "y_start \<le> y_stop" "0 \<le> x_start" "x_start \<le> x_stop"
    and "y_stop < 2 ^ 62" "x_stop < 2 ^ 62" "fst shape < 2 ^ 62" "snd shape < 2 ^ 62"
    and "y_start = 0 \<or> y_stop - y_start \<le> y_start"
    and "x_start = 0 \<or> x_stop - x_start \<le> x_start"
  shows "\<exists>y_new_start y_new_stop x_new_start x_new_stop.
           increase_mask_slice shape
             [Slice (Some y_start) (Some y_stop), Slice (Some x_start) (Some x_stop)] 1
           = Inr ([Slice (Some y_new_start) (Some y_new_stop),
                   Slice (Some x_new_start) (Some x_new_stop)],
                  (Some (y_start - y_new_start), Some (y_start - y_new_start + (y_stop - y_start))),
                  (Some (x_start - x_new_start), Some (x_start - x_new_start + (x_stop - x_start))))"
  using assms by (auto simp: increase_mask_slice_def Let_def max_def)

text \<open>
  Claim C2 states that the recovery offset of the window expander is, on each axis, the
  distance from the padded start to the requested start, also when clamping at a domain
  edge makes the padding asymmetric. On a 100 x 100 domain with the window rows 5:15,
  columns 5:15 and factor 1 the padded window starts at 0 on both axes, so the distance is
  5, but the sub-slice computed by the code is 10:20 on both axes.
\<close>

theorem increase_mask_slice_clamped_start:
  "increase_mask_slice (100, 100) [Slice (Some 5) (Some 15), Slice (Some 5) (Some 15)] 1
     = Inr ([Slice (Some 0) (Some 25), Slice (Some 0) (Some 25)],
            (Some 10, Some 20), (Some 10, Some 20))"
  by (simp add: increase_mask_slice_def)

section \<open>Combination of layers\<close>

lemma map2_commute:
  assumes "\<And>a b. f a b = f b a"
  shows "map2 f xs ys = map2 f ys xs"
proof (induction xs arbitrary: ys)
  case Nil
  then show ?case by simp
next
  case (Cons x xs)
  then show ?case using assms by (cases ys) auto
qed

lemma mult_arrays_commute: "mult_arrays a b = mult_arrays b a"
  unfolding mult_arrays_def
  by (rule map2_commute) (rule map2_commute, rule float16_mult_commute)

lemma apply_mask_error: "apply_mask lm data = Inl e \<Longrightarrow> e = ValueError"
  by (auto simp: apply_mask_def split: if_splits)

lemma combine_layers_fold:
  "combine_layers excl_h5 ds ls acc =
     (if \<forall>lm \<in> set ls. \<not> isl (apply_mask lm (excl_h5 (layer lm) ds))
      then Inr (fold (\<lambda>lm. accumulate (layer_output excl_h5 ds lm)) ls acc)
      else Inl ValueError)"
proof (induction ls arbitrary: acc)
  case Nil
  then show ?case by simp
next
  case (Cons lm ls)
  show ?case
  proof (cases "apply_mask lm (excl_h5 (layer lm) ds)")
    case (Inl e)
    then have "e = ValueError" by (rule apply_mask_error)
    with Inl show ?thesis by simp
  next
    case (Inr out)
    have o: "layer_output excl_h5 ds lm = out"
      using Inr by (simp add: layer_output_def)
    have a: "Some (case acc of None \<Rightarrow> out | Some m \<Rightarrow> mult_arrays m out) = accumulate out acc"
      by (simp add: accumulate_def)
    show ?thesis
      using Inr by (simp add: Cons.IH o a)
  qed
qed

lemma accumulate_simps:
  "accumulate a None = Some a" "accumulate a (Some m) = Some (mult_arrays m a)"
  by (simp_all add: accumulate_def)

lemma combine_layers_swap:
  "combine_layers excl_h5 ds [a, b] None = combine_layers excl_h5 ds [b, a] None"
proof -
  have "mult_arrays (layer_output excl_h5 ds a) (layer_output excl_h5 ds b)
      = mult_arrays (layer_output excl_h5 ds b) (layer_output excl_h5 ds a)"
    by (rule mult_arrays_commute)
  then show ?thesis
    by (auto simp: combine_layers_fold accumulate_simps)
qed

text \<open>
  Claim C5, as amended: for every window and every two layer policies A and B over the
  same store, the layer orders [A, B] and [B, A] give the same result (the same mask or
  the same error), with and without a minimum area.
\<close>

theorem generate_mask_two_layers_order:
  "generate_mask excl_h5 shape [a, b] min_area kern ds_slice
     = generate_mask excl_h5 shape [b, a] min_area kern ds_slice"
proof (cases min_area)
  case None
  then show ?thesis
    by (simp only: generate_mask_def option.case combine_layers_swap [of excl_h5 ds_slice a b])
next
  case (Some area)
  show ?thesis
  proof (cases "increase_mask_slice shape ds_slice 1")
    case (Inl e)
    with Some show ?thesis by (simp add: generate_mask_def)
  next
    case (Inr r)
    obtain new_slice sub_slice where r: "r = (new_slice, sub_slice)" by (cases r)
    show ?thesis
      unfolding generate_mask_def Some Inr r
      by (simp only: option.case sum.case prod.case combine_layers_swap [of excl_h5 new_slice a b])
  qed
qed

theorem generate_mask_two_layers_order_witness:
  "generate_mask two_layer_store (2, 2) [slope_layer, landuse_layer] (Some 1) Queen [Ellipsis]
     = generate_mask two_layer_store (2, 2) [landuse_layer, slope_layer] (Some 1) Queen [Ellipsis]"
  by (rule generate_mask_two_layers_order)

text \<open>
  Claim C5 as stated fails for three layers: the mask is a float16 array and every product
  is rounded. On a cell of raw value 1 in each of three layers used as weights with the
  weights 0.1, 0.3 and 0.7, the order (0.1, 0.3, 0.7) gives 1377 / 65536 and the order
  (0.3, 0.7, 0.1) gives 43 / 2048.
\<close>

theorem generate_mask_order_dependent_counterexample:
  "generate_mask unit_store (1, 1)
       [weights_layer ''a'' (1 / 10), weights_layer ''b'' (3 / 10), weights_layer ''c'' (7 / 10)]
       None Queen [Ellipsis]
     = Inr (Some [[Finite False (1377 / 65536)]])
   \<and> generate_mask unit_store (1, 1)
       [weights_layer ''b'' (3 / 10), weights_layer ''c'' (7 / 10), weights_layer ''a'' (1 / 10)]
       None Queen [Ellipsis]
     = Inr (Some [[Finite False (43 / 2048)]])
   \<and> Finite False (1377 / 65536) \<noteq> Finite False (43 / 2048)"
  by code_simp

lemma mult_arrays_shape:
  assumes "map length a = map length m"
  shows "map length (mult_arrays m a) = map length m"
proof (rule nth_equalityI)
  have l: "length a = length m" using assms by (rule map_eq_imp_length_eq)
  then show "length (map length (mult_arrays m a)) = length (map length m)"
    by (simp add: mult_arrays_def)
  fix i assume "i < length (map length (mult_arrays m a))"
  then have i: "i < length m" using l by (simp add: mult_arrays_def)
  have "length (a ! i) = length (m ! i)"
    using assms i l by (metis length_map nth_map)
  then show "map length (mult_arrays m a) ! i = map length m ! i"
    using i l by (simp add: mult_arrays_def)
qed

lemma mult_arrays_nth:
  assumes "map length a = map length m" and "i < length m" and "j < length (m ! i)"
  shows "mult_arrays m a ! i ! j = m ! i ! j * a ! i ! j"
proof -
  have l: "length a = length m" using assms(1) by (rule map_eq_imp_length_eq)
  have "length (a ! i) = length (m ! i)"
    using assms(1,2) l by (metis length_map nth_map)
  then show ?thesis
    using assms(2,3) l by (simp add: mult_arrays_def)
qed

lemma fold_accumulate_cells:
  assumes "\<forall>a \<in> set outs. map length a = map length m"
  shows "\<exists>r. fold accumulate outs (Some m) = Some r \<and> map length r = map length m
           \<and> (\<forall>i < length m. \<forall>j < length (m ! i).
                 r ! i ! j = foldl (*) (m ! i ! j) (map (\<lambda>a. a ! i ! j) outs))"
  using assms
proof (induction outs arbitrary: m)
  case Nil
  then show ?case by simp
next
  case (Cons a outs)
  let ?m = "mult_arrays m a"
  have am: "map length a = map length m" using Cons.prems by simp
  have sh: "map length ?m = map length m" using am by (rule mult_arrays_shape)
  have "\<forall>b \<in> set outs. map length b = map length ?m"
    using Cons.prems sh by simp
  from Cons.IH [OF this] obtain r where r: "fold accumulate outs (Some ?m) = Some r"
    "map length r = map length ?m"
    "\<forall>i < length ?m. \<forall>j < length (?m ! i).
        r ! i ! j = foldl (*) (?m ! i ! j) (map (\<lambda>a. a ! i ! j) outs)"
    by blast
  have len: "length ?m = length m" using sh by (rule map_eq_imp_length_eq)
  have rows: "length (?m ! i) = length (m ! i)" if "i < length m" for i
    using sh that len by (metis length_map nth_map)
  have "r ! i ! j = foldl (*) (m ! i ! j) (map (\<lambda>a. a ! i ! j) (a # outs))"
    if "i < length m" "j < length (m ! i)" for i j
    using r(3) that len rows mult_arrays_nth [OF am that] by simp
  then show ?case
    using r(1,2) sh by (simp add: accumulate_simps)
qed

text \<open>
  Claim C7: with no minimum area, when every layer's policy applies and the outputs have
  one shape, the mask of a window is the elementwise product of the policy outputs on the
  raw values read over that window, with that shape: nothing is padded, filtered or
  cropped. The product is numpy's float16 product, taken in the order of the layers.
\<close>

theorem generate_mask_no_min_area:
  assumes "map (\<lambda>lm. apply_mask lm (excl_h5 (layer lm) ds_slice)) layers = map Inr outs"
    and "outs \<noteq> []"
    and "\<forall>a \<in> set outs. map length a = map length (hd outs)"
  shows "\<exists>m. generate_mask excl_h5 shape layers None kern ds_slice = Inr (Some m)
           \<and> map length m = map length (hd outs)
           \<and> (\<forall>i < length m. \<forall>j < length (m ! i).
                 m ! i ! j = foldl (*) (hd outs ! i ! j) (map (\<lambda>a. a ! i ! j) (tl outs)))"
proof -
  obtain a rest where outs: "outs = a # rest"
    using assms(2) by (cases outs) auto
  have ok: "\<forall>lm \<in> set layers. \<not> isl (apply_mask lm (excl_h5 (layer lm) ds_slice))"
  proof
    fix lm assume "lm \<in> set layers"
    then have "apply_mask lm (excl_h5 (layer lm) ds_slice)
        \<in> set (map (\<lambda>lm. apply_mask lm (excl_h5 (layer lm) ds_slice)) layers)"
      by simp
    then show "\<not> isl (apply_mask lm (excl_h5 (layer lm) ds_slice))"
      unfolding assms(1) by auto
  qed
  have "map (layer_output excl_h5 ds_slice) layers
      = map projr (map (\<lambda>lm. apply_mask lm (excl_h5 (layer lm) ds_slice)) layers)"
    by (simp add: layer_output_def comp_def)
  then have lo: "map (layer_output excl_h5 ds_slice) layers = outs"
    unfolding assms(1) by (simp add: comp_def)
  have "fold (\<lambda>lm. accumulate (layer_output excl_h5 ds_slice lm)) layers None
      = fold accumulate (map (layer_output excl_h5 ds_slice) layers) None"
    by (simp add: fold_map comp_def)
  also have "\<dots> = fold accumulate rest (Some a)"
    by (simp add: lo outs accumulate_simps)
  finally have gm: "generate_mask excl_h5 shape layers None kern ds_slice
      = Inr (fold accumulate rest (Some a))"
    using ok by (simp add: generate_mask_def combine_layers_fold)
  have "\<forall>b \<in> set rest. map length b = map length a"
    using assms(3) outs by simp
  from fold_accumulate_cells [OF this] obtain r where
    r: "fold accumulate rest (Some a) = Some r" "map length r = map length a"
       "\<forall>i < length a. \<forall>j < length (a ! i).
          r ! i ! j = foldl (*) (a ! i ! j) (map (\<lambda>b. b ! i ! j) rest)"
    by blast
  have len: "length r = length a" using r(2) by (rule map_eq_imp_length_eq)
  have rows: "length (r ! i) = length (a ! i)" if "i < length a" for i
    using r(2) that len by (metis length_map nth_map)
  show ?thesis
    using gm r len rows by (simp add: outs)
qed

lemma two_layer_outputs:
  "map (\<lambda>lm. apply_mask lm (two_layer_store (layer lm) [Ellipsis])) [slope_layer, landuse_layer]
     = map Inr [[[Finite False (1 / 2), Finite False 0], [Finite False (1 / 2), Finite False 0]],
                [[Finite False 0, Finite False 1], [Finite False 1, Finite False 0]]]"
  by code_simp

theorem generate_mask_no_min_area_witness:
  "map (\<lambda>lm. apply_mask lm (two_layer_store (layer lm) [Ellipsis])) [slope_layer, landuse_layer]
     = map Inr [[[Finite False (1 / 2), Finite False 0], [Finite False (1 / 2), Finite False 0]],
                [[Finite False 0, Finite False 1], [Finite False 1, Finite False 0]]]
   \<and> (\<exists>m. generate_mask two_layer_store (2, 2) [slope_layer, landuse_layer] None Queen [Ellipsis]
            = Inr (Some m)
          \<and> map length m = [2, 2]
          \<and> (\<forall>i < length m. \<forall>j < length (m ! i).
                m ! i ! j = foldl (*)
                  ([[Finite False (1 / 2), Finite False 0], [Finite False (1 / 2), Finite False 0]] ! i ! j)
                  (map (\<lambda>a. a ! i ! j)
                     [[[Finite False 0, Finite False 1], [Finite False 1, Finite False 0]]])))"
  using two_layer_outputs generate_mask_no_min_area [of two_layer_store "[Ellipsis]"
        "[slope_layer, landuse_layer]"
        "[[[Finite False (1 / 2), Finite False 0], [Finite False (1 / 2), Finite False 0]],
          [[Finite False 0, Finite False 1], [Finite False 1, Finite False 0]]]"
        "(2, 2)" Queen]
  by (simp add: numeral_2_eq_2)

section \<open>The area filter: shape and background\<close>

lemma flood_subset: "set (flood s inp todo seen) \<subseteq> set seen \<union> {p. feature inp p}"
  by (induction s inp todo seen rule: flood.induct) auto

lemma paint_shape: "map length (paint ps v labs) = map length labs"
  by (rule nth_equalityI) (simp_all add: paint_def)

lemma paint_nth:
  assumes "in_bounds labs p"
  shows "item (paint ps v labs) p = (if p \<in> set ps then v else item labs p)"
  using assms by (cases p) (simp add: paint_def in_bounds_def item_def)

lemma in_bounds_shape: "map length a = map length b \<Longrightarrow> in_bounds a p = in_bounds b p"
  unfolding in_bounds_def
  by (metis length_map nth_map)

lemma label_scan_shape: "map length (fst (label_scan s inp ps st)) = map length (fst st)"
proof (induction s inp ps st rule: label_scan.induct)
  case (1 s inp labs n)
  then show ?case by simp
next
  case (2 s inp p ps labs n)
  then show ?case by (simp add: paint_shape)
qed

lemma label_scan_features:
  assumes "\<forall>p. in_bounds (fst st) p \<longrightarrow> item (fst st) p \<noteq> 0 \<longrightarrow> feature inp p"
    and "in_bounds (fst st) q" and "item (fst (label_scan s inp ps st)) q \<noteq> 0"
  shows "feature inp q"
  using assms
proof (induction s inp ps st rule: label_scan.induct)
  case (1 s inp labs n)
  then show ?case by (cases q) auto
next
  case (2 s inp p ps labs n)
  show ?case
  proof (cases "item inp p \<and> item labs p = 0")
    case True
    let ?labs = "paint (flood s inp [p] []) (Suc n) labs"
    have sh: "map length ?labs = map length labs" by (rule paint_shape)
    have a: "\<forall>r. in_bounds (fst (?labs, Suc n)) r \<longrightarrow> item (fst (?labs, Suc n)) r \<noteq> 0
                \<longrightarrow> feature inp r"
    proof (intro allI impI)
      fix r assume r: "in_bounds (fst (?labs, Suc n)) r" "item (fst (?labs, Suc n)) r \<noteq> 0"
      then have rb: "in_bounds labs r" using in_bounds_shape [OF sh] by simp
      show "feature inp r"
      proof (cases "r \<in> set (flood s inp [p] [])")
        case True
        then show ?thesis using flood_subset [of s inp "[p]" "[]"] by auto
      next
        case False
        then have "item labs r \<noteq> 0" using r(2) paint_nth [OF rb] by simp
        then show ?thesis using "2.prems"(1) rb by (simp del: split_paired_All)
      qed
    qed
    have b: "in_bounds (fst (?labs, Suc n)) q"
      using "2.prems"(2) in_bounds_shape [OF sh] by simp
    have c: "item (fst (label_scan s inp ps (?labs, Suc n))) q \<noteq> 0"
      using "2.prems"(3) True by simp
    show ?thesis using "2.IH"(1) [OF True a b c] .
  next
    case False
    then have c: "item (fst (label_scan s inp ps (labs, n))) q \<noteq> 0"
      using "2.prems"(3) by auto
    show ?thesis using "2.IH"(2) [OF False "2.prems"(1,2) c] .
  qed
qed

lemma label_shape: "map length (fst (label inp s)) = map length inp"
  by (simp add: label_def label_scan_shape comp_def)

lemma label_features:
  assumes "in_bounds inp q" and "item (fst (label inp s)) q \<noteq> 0"
  shows "feature inp q"
proof -
  let ?z = "map (map (\<lambda>_. 0::nat)) inp"
  have z: "map length ?z = map length inp" by (simp add: comp_def)
  have a: "\<forall>p. in_bounds (fst (?z, 0::nat)) p \<longrightarrow> item (fst (?z, 0::nat)) p \<noteq> 0 \<longrightarrow> feature inp p"
    by (auto simp: in_bounds_def item_def)
  have b: "in_bounds (fst (?z, 0::nat)) q" using assms(1) in_bounds_shape [OF z] by simp
  show ?thesis
    using label_scan_features [OF a b] assms(2) by (simp add: label_def)
qed

lemma tl_sorted_distinct_pos:
  fixes l :: "nat list"
  assumes "sorted l" and "distinct l"
  shows "0 \<notin> set (tl l)"
proof (cases l)
  case Nil
  then show ?thesis by simp
next
  case (Cons x r)
  then have "\<forall>y \<in> set r. x \<le> y \<and> x \<noteq> y" using assms by auto
  then have "\<forall>y \<in> set r. 0 < y" by (metis le_neq_implies_less not_less_zero not_gr_zero)
  then show ?thesis using Cons by auto
qed

lemma area_filter_eq:
  "ex_area \<noteq> 0 \<Longrightarrow> area_filter m min_area kern ex_area =
     Inr (assign_where m
           (isin (fst (label (map (map (\<lambda>v. v > 0)) m) (FILTER_KERNELS kern)))
              (bad_labels_of (fst (label (map (map (\<lambda>v. v > 0)) m) (FILTER_KERNELS kern)))
                 (real_of_int \<lceil>min_area / ex_area\<rceil>))) 0)"
  by (simp add: area_filter_def bad_labels_of_def Let_def split: prod.splits)

lemma bad_labels_subset:
  "set (bad_labels_of labels k) \<subseteq> set (tl (sort (remdups (concat labels))))"
  by (auto simp: bad_labels_of_def unique_counts_def Let_def dest: set_zip_leftD)

lemma zero_not_bad: "0 \<notin> set (bad_labels_of labels k)"
proof -
  have "0 \<notin> set (tl (sort (remdups (concat labels))))"
    by (rule tl_sorted_distinct_pos) simp_all
  then show ?thesis using bad_labels_subset by blast
qed

lemma assign_where_shape:
  assumes "map length sel = map length a"
  shows "map length (assign_where a sel v) = map length a"
proof (rule nth_equalityI)
  have l: "length sel = length a" using assms by (rule map_eq_imp_length_eq)
  then show "length (map length (assign_where a sel v)) = length (map length a)"
    by (simp add: assign_where_def)
  fix i assume "i < length (map length (assign_where a sel v))"
  then have i: "i < length a" using l by (simp add: assign_where_def)
  have "length (sel ! i) = length (a ! i)"
    using assms i l by (metis length_map nth_map)
  then show "map length (assign_where a sel v) ! i = map length a ! i"
    using i l by (simp add: assign_where_def)
qed

lemma assign_where_nth:
  assumes "map length sel = map length a" and "in_bounds a p"
  shows "item (assign_where a sel v) p = (if item sel p then v else item a p)"
proof -
  have l: "length sel = length a" using assms(1) by (rule map_eq_imp_length_eq)
  have i: "fst p < length a" and j: "snd p < length (a ! fst p)"
    using assms(2) by (simp_all add: in_bounds_def)
  have "length (sel ! fst p) = length (a ! fst p)"
    using assms(1) i l by (metis length_map nth_map)
  then show ?thesis
    using i j l by (simp add: assign_where_def item_def)
qed

lemma isin_shape: "map length (isin a vs) = map length a"
  by (simp add: isin_def comp_def)

lemma isin_nth: "in_bounds a p \<Longrightarrow> item (isin a vs) p = (item a p \<in> set vs)"
  by (simp add: isin_def in_bounds_def item_def)

lemma positive_shape: "map length (positive m) = map length m"
  by (simp add: positive_def comp_def)

lemma area_filter_cell:
  assumes "ex_area \<noteq> 0"
  shows "\<exists>out. area_filter m min_area kern ex_area = Inr out \<and> map length out = map length m
           \<and> (\<forall>p. in_bounds m p \<longrightarrow> item out p =
                 (if item (fst (label (positive m) (FILTER_KERNELS kern))) p
                       \<in> set (bad_labels_of (fst (label (positive m) (FILTER_KERNELS kern)))
                               (real_of_int \<lceil>min_area / ex_area\<rceil>))
                  then 0 else item m p))"
proof -
  let ?labels = "fst (label (positive m) (FILTER_KERNELS kern))"
  let ?bad = "bad_labels_of ?labels (real_of_int \<lceil>min_area / ex_area\<rceil>)"
  have ls: "map length ?labels = map length m"
    by (simp add: label_shape positive_shape)
  have ss: "map length (isin ?labels ?bad) = map length m"
    by (simp add: isin_shape ls)
  have "item (assign_where m (isin ?labels ?bad) 0) p
        = (if item ?labels p \<in> set ?bad then 0 else item m p)" if "in_bounds m p" for p
    using assign_where_nth [OF ss that] isin_nth [of ?labels p ?bad]
      in_bounds_shape [OF ls, of p] that by simp
  then show ?thesis
    using area_filter_eq [OF assms, of m min_area kern] assign_where_shape [OF ss]
    by (simp add: positive_def)
qed

text \<open>
  Claim C10: for every mask, kernel, minimum area and non-zero pixel area the filter
  returns a mask of the same shape in which every cell equals the input cell or 0, and
  every cell whose input value is not strictly positive is unchanged.
\<close>

theorem area_filter_never_adds:
  assumes "ex_area \<noteq> 0"
  shows "\<exists>out. area_filter m min_area kern ex_area = Inr out
           \<and> map length out = map length m
           \<and> (\<forall>i < length m. \<forall>j < length (m ! i).
                 (out ! i ! j = m ! i ! j \<or> out ! i ! j = 0)
                 \<and> (\<not> 0 < m ! i ! j \<longrightarrow> out ! i ! j = m ! i ! j))"
proof -
  let ?labels = "fst (label (positive m) (FILTER_KERNELS kern))"
  let ?bad = "bad_labels_of ?labels (real_of_int \<lceil>min_area / ex_area\<rceil>)"
  from area_filter_cell [OF assms, of m min_area kern] obtain out where
    out: "area_filter m min_area kern ex_area = Inr out" "map length out = map length m"
      "\<forall>p. in_bounds m p \<longrightarrow> item out p = (if item ?labels p \<in> set ?bad then 0 else item m p)"
    by blast
  have "(out ! i ! j = m ! i ! j \<or> out ! i ! j = 0) \<and> (\<not> 0 < m ! i ! j \<longrightarrow> out ! i ! j = m ! i ! j)"
    if "i < length m" "j < length (m ! i)" for i j
  proof -
    have b: "in_bounds m (i, j)" using that by (simp add: in_bounds_def)
    have c: "out ! i ! j = (if item ?labels (i, j) \<in> set ?bad then 0 else m ! i ! j)"
      using out(3) b by (simp add: item_def)
    have "item ?labels (i, j) = 0" if "\<not> 0 < m ! i ! j"
    proof (rule ccontr)
      assume "item ?labels (i, j) \<noteq> 0"
      moreover have "in_bounds (positive m) (i, j)"
        using b in_bounds_shape [OF positive_shape] by simp
      ultimately have "feature (positive m) (i, j)" by (rule label_features [rotated])
      then show False
        using that \<open>i < length m\<close> \<open>j < length (m ! i)\<close>
        by (simp add: feature_def item_def positive_def)
    qed
    then show ?thesis using c zero_not_bad [of ?labels] by auto
  qed
  then show ?thesis using out(1,2) by blast
qed

theorem area_filter_never_adds_witness:
  "(81 / 10000 :: real) \<noteq> 0
   \<and> (\<exists>out. area_filter [[1, 0], [Finite True 1, 1]] 1 Rook (81 / 10000) = Inr out
          \<and> map length out = map length [[1, 0], [Finite True 1, 1]]
          \<and> (\<forall>i < length [[1, 0], [Finite True 1, 1]].
               \<forall>j < length ([[1, 0], [Finite True 1, 1]] ! i).
                (out ! i ! j = [[1, 0], [Finite True 1, 1]] ! i ! j \<or> out ! i ! j = 0)
                \<and> (\<not> 0 < [[1, 0], [Finite True 1, 1]] ! i ! j
                     \<longrightarrow> out ! i ! j = [[1, 0], [Finite True 1, 1]] ! i ! j)))"
proof -
  have h: "(81 / 10000 :: real) \<noteq> 0" by simp
  show ?thesis
    using h area_filter_never_adds [OF h, of "[[1, 0], [Finite True 1, 1]]" 1 Rook] by blast
qed

section \<open>Flood fill and labelling\<close>

lemma in_concat_map: "x \<in> set (concat (map f xs)) \<longleftrightarrow> (\<exists>y \<in> set xs. x \<in> set (f y))"
  by auto

lemma neighbours_iff:
  "q \<in> set (neighbours s p) \<longleftrightarrow>
     (\<exists>di < 3. \<exists>dj < 3. s ! di ! dj \<noteq> 0 \<and> 1 \<le> fst p + di \<and> 1 \<le> snd p + dj
        \<and> q = (fst p + di - 1, snd p + dj - 1))"
proof
  assume "q \<in> set (neighbours s p)"
  then obtain di dj where "di \<in> set [0..<3]" "dj \<in> set [0..<3]"
    "q \<in> set (if s ! di ! dj \<noteq> 0 \<and> 1 \<le> fst p + di \<and> 1 \<le> snd p + dj
              then [(fst p + di - 1, snd p + dj - 1)] else [])"
    unfolding neighbours_def in_concat_map by blast
  then show "\<exists>di < 3. \<exists>dj < 3. s ! di ! dj \<noteq> 0 \<and> 1 \<le> fst p + di \<and> 1 \<le> snd p + dj
        \<and> q = (fst p + di - 1, snd p + dj - 1)"
    by (cases "s ! di ! dj \<noteq> 0 \<and> 1 \<le> fst p + di \<and> 1 \<le> snd p + dj") auto
next
  assume "\<exists>di < 3. \<exists>dj < 3. s ! di ! dj \<noteq> 0 \<and> 1 \<le> fst p + di \<and> 1 \<le> snd p + dj
        \<and> q = (fst p + di - 1, snd p + dj - 1)"
  then obtain di dj where d: "di < 3" "dj < 3" "s ! di ! dj \<noteq> 0" "1 \<le> fst p + di"
    "1 \<le> snd p + dj" "q = (fst p + di - 1, snd p + dj - 1)"
    by blast
  have "di \<in> set [0..<3]" "dj \<in> set [0..<3]" using d by simp_all
  moreover have "q \<in> set (if s ! di ! dj \<noteq> 0 \<and> 1 \<le> fst p + di \<and> 1 \<le> snd p + dj
              then [(fst p + di - 1, snd p + dj - 1)] else [])"
    using d by simp
  ultimately show "q \<in> set (neighbours s p)"
    unfolding neighbours_def in_concat_map by blast
qed

lemma kernel_sym:
  "di < 3 \<Longrightarrow> dj < 3 \<Longrightarrow> FILTER_KERNELS k ! (2 - di) ! (2 - dj) = FILTER_KERNELS k ! di ! dj"
  by (cases k) (auto simp: FILTER_KERNELS_def less_Suc_eq numeral_3_eq_3 numeral_2_eq_2)

lemma neighbours_sym:
  assumes "q \<in> set (neighbours (FILTER_KERNELS k) p)"
  shows "p \<in> set (neighbours (FILTER_KERNELS k) q)"
proof -
  from assms obtain di dj where d: "di < 3" "dj < 3" "FILTER_KERNELS k ! di ! dj \<noteq> 0"
    "1 \<le> fst p + di" "1 \<le> snd p + dj" "q = (fst p + di - 1, snd p + dj - 1)"
    unfolding neighbours_iff by blast
  have "2 - di < 3" "2 - dj < 3" by simp_all
  moreover have "FILTER_KERNELS k ! (2 - di) ! (2 - dj) \<noteq> 0"
    using d(1-3) by (simp add: kernel_sym)
  moreover have "1 \<le> fst q + (2 - di)" "1 \<le> snd q + (2 - dj)"
    using d by auto
  moreover have "p = (fst q + (2 - di) - 1, snd q + (2 - dj) - 1)"
    using d by (cases p) auto
  ultimately show ?thesis unfolding neighbours_iff by blast
qed

lemma adjacent_sym: "sym (adjacent (FILTER_KERNELS k) inp)"
  by (auto simp: sym_def adjacent_def dest: neighbours_sym)

lemma region_sym:
  "q \<in> region (FILTER_KERNELS k) inp p \<Longrightarrow> p \<in> region (FILTER_KERNELS k) inp q"
proof -
  assume "q \<in> region (FILTER_KERNELS k) inp p"
  then have "(p, q) \<in> (adjacent (FILTER_KERNELS k) inp)\<^sup>*" by (simp add: region_def)
  then have "(q, p) \<in> (adjacent (FILTER_KERNELS k) inp)\<^sup>*"
    by (rule symD [OF sym_rtrancl [OF adjacent_sym]])
  then show ?thesis by (simp add: region_def)
qed

lemma region_refl: "p \<in> region s inp p"
  by (simp add: region_def)

lemma region_trans: "q \<in> region s inp p \<Longrightarrow> r \<in> region s inp q \<Longrightarrow> r \<in> region s inp p"
  unfolding region_def by auto

lemma region_feature:
  assumes "q \<in> region s inp p" and "feature inp p"
  shows "feature inp q"
proof -
  have "(p, q) \<in> (adjacent s inp)\<^sup>*" using assms(1) by (simp add: region_def)
  then show ?thesis
    by (induction rule: rtrancl_induct) (auto simp: assms(2) adjacent_def)
qed

lemma region_eq:
  assumes "q \<in> region (FILTER_KERNELS k) inp p"
  shows "region (FILTER_KERNELS k) inp q = region (FILTER_KERNELS k) inp p"
  using assms region_sym [OF assms] by (auto intro: region_trans)

lemma flood_sound:
  assumes "set seen \<subseteq> S" and "\<forall>q \<in> set todo. feature inp q \<longrightarrow> q \<in> S"
    and "\<forall>x \<in> S. \<forall>y. (x, y) \<in> adjacent s inp \<longrightarrow> y \<in> S"
  shows "set (flood s inp todo seen) \<subseteq> S"
  using assms
proof (induction s inp todo seen rule: flood.induct)
  case (1 s inp seen)
  then show ?case by simp
next
  case (2 s inp p todo seen)
  show ?case
  proof (cases "p \<in> set seen \<or> \<not> feature inp p")
    case True
    then show ?thesis using 2 by simp
  next
    case False
    then have pS: "p \<in> S" using "2.prems"(2) by simp
    have "\<forall>q \<in> set (neighbours s p @ todo). feature inp q \<longrightarrow> q \<in> S"
    proof (intro ballI impI)
      fix q assume q: "q \<in> set (neighbours s p @ todo)" "feature inp q"
      show "q \<in> S"
      proof (cases "q \<in> set todo")
        case True
        then show ?thesis using "2.prems"(2) q(2) by simp
      next
        case False
        then have "(p, q) \<in> adjacent s inp"
          using q \<open>\<not> (p \<in> set seen \<or> \<not> feature inp p)\<close> by (simp add: adjacent_def)
        then show ?thesis using "2.prems"(3) pS by blast
      qed
    qed
    moreover have "set (p # seen) \<subseteq> S" using pS "2.prems"(1) by simp
    ultimately show ?thesis
      using "2.IH"(2) [OF False _ _ "2.prems"(3)] False by simp
  qed
qed

lemma flood_closed:
  assumes "\<forall>x \<in> set seen. \<forall>y. (x, y) \<in> adjacent s inp \<longrightarrow> y \<in> set seen \<union> set todo"
  shows "(\<forall>x \<in> set (flood s inp todo seen). \<forall>y. (x, y) \<in> adjacent s inp
            \<longrightarrow> y \<in> set (flood s inp todo seen))
       \<and> set seen \<subseteq> set (flood s inp todo seen)
       \<and> (\<forall>q \<in> set todo. feature inp q \<longrightarrow> q \<in> set (flood s inp todo seen))"
  using assms
proof (induction s inp todo seen rule: flood.induct)
  case (1 s inp seen)
  then show ?case by simp
next
  case (2 s inp p todo seen)
  show ?case
  proof (cases "p \<in> set seen \<or> \<not> feature inp p")
    case True
    have "\<forall>x \<in> set seen. \<forall>y. (x, y) \<in> adjacent s inp \<longrightarrow> y \<in> set seen \<union> set todo"
    proof (intro ballI allI impI)
      fix x y assume x: "x \<in> set seen" and xy: "(x, y) \<in> adjacent s inp"
      then have "y \<in> set seen \<union> set (p # todo)" using "2.prems" by blast
      moreover have "feature inp y" using xy by (simp add: adjacent_def)
      ultimately show "y \<in> set seen \<union> set todo" using True by auto
    qed
    from "2.IH"(1) [OF True this] show ?thesis using True by auto
  next
    case False
    have "\<forall>x \<in> set (p # seen). \<forall>y. (x, y) \<in> adjacent s inp
            \<longrightarrow> y \<in> set (p # seen) \<union> set (neighbours s p @ todo)"
    proof (intro ballI allI impI)
      fix x y assume x: "x \<in> set (p # seen)" and xy: "(x, y) \<in> adjacent s inp"
      show "y \<in> set (p # seen) \<union> set (neighbours s p @ todo)"
      proof (cases "x = p")
        case True
        then show ?thesis using xy by (simp add: adjacent_def)
      next
        case False
        then have "x \<in> set seen" using x by simp
        then have "y \<in> set seen \<union> set (p # todo)" using "2.prems" xy by blast
        then show ?thesis by auto
      qed
    qed
    from "2.IH"(2) [OF False this] show ?thesis using False by auto
  qed
qed

lemma flood_region:
  assumes "feature inp p"
  shows "set (flood s inp [p] []) = region s inp p"
proof
  have "\<forall>x \<in> region s inp p. \<forall>y. (x, y) \<in> adjacent s inp \<longrightarrow> y \<in> region s inp p"
    unfolding region_def by (auto intro: rtrancl_into_rtrancl)
  then show "set (flood s inp [p] []) \<subseteq> region s inp p"
    by (intro flood_sound) (simp_all add: region_refl)
next
  let ?F = "set (flood s inp [p] [])"
  have c: "(\<forall>x \<in> ?F. \<forall>y. (x, y) \<in> adjacent s inp \<longrightarrow> y \<in> ?F) \<and> p \<in> ?F"
    using flood_closed [of "[]" s inp "[p]"] assms by simp
  show "region s inp p \<subseteq> ?F"
  proof
    fix q assume "q \<in> region s inp p"
    then have "(p, q) \<in> (adjacent s inp)\<^sup>*" by (simp add: region_def)
    then show "q \<in> ?F"
      by (induction rule: rtrancl_induct) (use c in blast)+
  qed
qed


lemma feature_in_bounds: "feature inp p \<Longrightarrow> in_bounds inp p"
  by (simp add: feature_def)

lemma labelledD:
  assumes "labelled k inp labs n"
  shows "map length labs = map length inp"
    and "\<And>p. in_bounds inp p \<Longrightarrow> item labs p \<le> n"
    and "\<And>p. in_bounds inp p \<Longrightarrow> item labs p \<noteq> 0 \<Longrightarrow> feature inp p"
    and "\<And>p q. in_bounds inp p \<Longrightarrow> item labs p \<noteq> 0 \<Longrightarrow> q \<in> region (FILTER_KERNELS k) inp p
           \<Longrightarrow> item labs q = item labs p"
    and "\<And>p q. in_bounds inp p \<Longrightarrow> in_bounds inp q \<Longrightarrow> item labs p \<noteq> 0
           \<Longrightarrow> item labs q = item labs p \<Longrightarrow> q \<in> region (FILTER_KERNELS k) inp p"
  using assms unfolding labelled_def by blast+

lemma labelled_paint:
  assumes inv: "labelled k inp labs n" and fp: "feature inp p" and zero: "item labs p = 0"
  shows "labelled k inp (paint (flood (FILTER_KERNELS k) inp [p] []) (Suc n) labs) (Suc n)"
proof -
  let ?s = "FILTER_KERNELS k"
  let ?C = "region ?s inp p"
  let ?labs = "paint (flood ?s inp [p] []) (Suc n) labs"
  have fl: "set (flood ?s inp [p] []) = ?C" using fp by (rule flood_region)
  note sh = labelledD(1) [OF inv] and le = labelledD(2) [OF inv] and ft = labelledD(3) [OF inv]
    and cl = labelledD(4) [OF inv] and cn = labelledD(5) [OF inv]
  have new: "item ?labs q = (if q \<in> ?C then Suc n else item labs q)" if "in_bounds inp q" for q
    using paint_nth [of labs q] that in_bounds_shape [OF sh, of q] fl by simp
  have inC: "r \<in> ?C \<longleftrightarrow> q \<in> ?C" if "r \<in> region ?s inp q" for q r
  proof
    assume "r \<in> ?C"
    then have "region ?s inp r = ?C" by (rule region_eq)
    moreover have "q \<in> region ?s inp r" using that by (rule region_sym)
    ultimately show "q \<in> ?C" by simp
  next
    assume "q \<in> ?C"
    then show "r \<in> ?C" using that by (rule region_trans)
  qed
  have a: "map length ?labs = map length inp" using sh by (simp add: paint_shape)
  have b: "item ?labs q \<le> Suc n" if "in_bounds inp q" for q
    using new [OF that] le [OF that] by simp
  have c: "feature inp q" if "in_bounds inp q" "item ?labs q \<noteq> 0" for q
  proof (cases "q \<in> ?C")
    case True
    then show ?thesis using fp by (rule region_feature)
  next
    case False
    then have "item labs q \<noteq> 0" using new [OF that(1)] that(2) by simp
    with that(1) show ?thesis by (rule ft)
  qed
  have d: "item ?labs r = item ?labs q"
    if "in_bounds inp q" "item ?labs q \<noteq> 0" "r \<in> region ?s inp q" for q r
  proof -
    have fq: "feature inp q" using that(1,2) by (rule c)
    have rb: "in_bounds inp r" using region_feature [OF that(3) fq] by (rule feature_in_bounds)
    show ?thesis
    proof (cases "q \<in> ?C")
      case True
      then have "r \<in> ?C" using inC [OF that(3)] by simp
      then show ?thesis using True new [OF that(1)] new [OF rb] by simp
    next
      case False
      then have rC: "r \<notin> ?C" using inC [OF that(3)] by simp
      have "item labs q \<noteq> 0" using False new [OF that(1)] that(2) by simp
      with that(1) have "item labs r = item labs q" using that(3) by (rule cl)
      then show ?thesis using False rC new [OF that(1)] new [OF rb] by simp
    qed
  qed
  have e: "r \<in> region ?s inp q"
    if "in_bounds inp q" "in_bounds inp r" "item ?labs q \<noteq> 0" "item ?labs r = item ?labs q"
    for q r
  proof (cases "q \<in> ?C")
    case True
    then have "item ?labs r = Suc n" using that(4) new [OF that(1)] by simp
    then have "r \<in> ?C" using new [OF that(2)] le [OF that(2)] by (auto split: if_splits)
    then show ?thesis using True region_eq [OF True] by simp
  next
    case False
    then have q: "item ?labs q = item labs q" using new [OF that(1)] by simp
    then have "item labs q \<le> n" "item labs q \<noteq> 0" using le [OF that(1)] that(3) by simp_all
    then have "r \<notin> ?C" using that(4) q new [OF that(2)] by (auto split: if_splits)
    then have "item labs r = item labs q" using that(4) q new [OF that(2)] by simp
    with that(1,2) \<open>item labs q \<noteq> 0\<close> show ?thesis by (intro cn)
  qed
  show ?thesis
    unfolding labelled_def
  proof (intro conjI allI impI)
    show "map length ?labs = map length inp" by (rule a)
  next
    fix q assume "in_bounds inp q"
    then show "item ?labs q \<le> Suc n" by (rule b)
  next
    fix q assume "in_bounds inp q" "item ?labs q \<noteq> 0"
    then show "feature inp q" by (rule c)
  next
    fix q r assume "in_bounds inp q" "item ?labs q \<noteq> 0" "r \<in> region ?s inp q"
    then show "item ?labs r = item ?labs q" by (rule d)
  next
    fix q r assume "in_bounds inp q" "in_bounds inp r" "item ?labs q \<noteq> 0"
      "item ?labs r = item ?labs q"
    then show "r \<in> region ?s inp q" by (rule e)
  qed
qed

lemma label_scan_labelled:
  assumes "labelled k inp labs n" and "\<forall>p \<in> set ps. in_bounds inp p"
  shows "labelled k inp (fst (label_scan (FILTER_KERNELS k) inp ps (labs, n)))
           (snd (label_scan (FILTER_KERNELS k) inp ps (labs, n)))"
  using assms
proof (induction ps arbitrary: labs n)
  case Nil
  then show ?case by simp
next
  case (Cons p ps)
  show ?case
  proof (cases "item inp p \<and> item labs p = 0")
    case True
    then have "feature inp p" using Cons.prems(2) by (simp add: feature_def)
    then have "labelled k inp (paint (flood (FILTER_KERNELS k) inp [p] []) (Suc n) labs) (Suc n)"
      using Cons.prems(1) True by (intro labelled_paint) simp_all
    then show ?thesis using Cons.IH Cons.prems(2) True by simp
  next
    case False
    then show ?thesis using Cons.IH Cons.prems by auto
  qed
qed

lemma label_scan_keeps:
  assumes "in_bounds labs q" and "item labs q \<noteq> 0"
  shows "item (fst (label_scan s inp ps (labs, n))) q \<noteq> 0"
  using assms
proof (induction ps arbitrary: labs n)
  case Nil
  then show ?case by simp
next
  case (Cons p ps)
  let ?labs = "paint (flood s inp [p] []) (Suc n) labs"
  have "in_bounds ?labs q" using Cons.prems(1) in_bounds_shape [OF paint_shape] by blast
  moreover have "item ?labs q \<noteq> 0" using Cons.prems paint_nth [of labs q] by simp
  ultimately have "item (fst (label_scan s inp ps (?labs, Suc n))) q \<noteq> 0"
    by (rule Cons.IH)
  then show ?case using Cons.IH [OF Cons.prems] by simp
qed

lemma label_scan_covers:
  assumes "p \<in> set ps" and "feature inp p" and "map length labs = map length inp"
  shows "item (fst (label_scan s inp ps (labs, n))) p \<noteq> 0"
  using assms
proof (induction ps arbitrary: labs n)
  case Nil
  then show ?case by simp
next
  case (Cons x ps)
  let ?labs = "paint (flood s inp [x] []) (Suc n) labs"
  have sh: "map length ?labs = map length inp" using Cons.prems(3) by (simp add: paint_shape)
  have pb: "in_bounds labs p"
    using Cons.prems(2,3) in_bounds_shape [of labs inp p] by (simp add: feature_def)
  show ?case
  proof (cases "x = p")
    case True
    show ?thesis
    proof (cases "item labs p = 0")
      case z: True
      have "p \<in> set (flood s inp [p] [])"
        using flood_region [OF Cons.prems(2)] region_refl by blast
      then have "item ?labs p \<noteq> 0" using paint_nth [OF pb] True by simp
      moreover have "in_bounds ?labs p" using pb in_bounds_shape [OF paint_shape] by blast
      ultimately have "item (fst (label_scan s inp ps (?labs, Suc n))) p \<noteq> 0"
        by (rule label_scan_keeps [rotated])
      then show ?thesis using True z Cons.prems(2) by (simp add: feature_def)
    next
      case False
      then have "item (fst (label_scan s inp ps (labs, n))) p \<noteq> 0"
        using pb by (intro label_scan_keeps) simp_all
      then show ?thesis using True False by simp
    qed
  next
    case False
    then have "p \<in> set ps" using Cons.prems(1) by simp
    then show ?thesis
      using Cons.IH [OF _ Cons.prems(2) sh] Cons.IH [OF _ Cons.prems(2,3)] by simp
  qed
qed

lemma set_cells: "set (cells a) = {p. in_bounds a p}"
  by (auto simp: cells_def in_bounds_def)

lemma labelled_label:
  "labelled k inp (fst (label inp (FILTER_KERNELS k))) (snd (label inp (FILTER_KERNELS k)))"
proof -
  have "labelled k inp (map (map (\<lambda>_. 0)) inp) 0"
    by (auto simp: labelled_def comp_def in_bounds_def item_def)
  then show ?thesis
    unfolding label_def by (rule label_scan_labelled) (simp add: set_cells)
qed

lemma label_nonzero_iff:
  assumes "in_bounds inp p"
  shows "item (fst (label inp (FILTER_KERNELS k))) p \<noteq> 0 \<longleftrightarrow> feature inp p"
proof
  assume "item (fst (label inp (FILTER_KERNELS k))) p \<noteq> 0"
  with assms show "feature inp p" by (rule label_features)
next
  assume "feature inp p"
  then show "item (fst (label inp (FILTER_KERNELS k))) p \<noteq> 0"
    unfolding label_def using assms
    by (intro label_scan_covers) (simp_all add: set_cells comp_def)
qed

lemma label_same_iff:
  assumes "feature inp p" and "in_bounds inp q"
  shows "item (fst (label inp (FILTER_KERNELS k))) q = item (fst (label inp (FILTER_KERNELS k))) p
           \<longleftrightarrow> q \<in> region (FILTER_KERNELS k) inp p"
proof -
  let ?L = "fst (label inp (FILTER_KERNELS k))"
  have pb: "in_bounds inp p" using assms(1) by (rule feature_in_bounds)
  have nz: "item ?L p \<noteq> 0" using label_nonzero_iff [OF pb] assms(1) by simp
  have inv: "labelled k inp ?L (snd (label inp (FILTER_KERNELS k)))" by (rule labelled_label)
  show ?thesis
  proof
    assume "item ?L q = item ?L p"
    with pb assms(2) nz show "q \<in> region (FILTER_KERNELS k) inp p"
      by (rule labelledD(5) [OF inv])
  next
    assume "q \<in> region (FILTER_KERNELS k) inp p"
    with pb nz show "item ?L q = item ?L p"
      by (rule labelledD(4) [OF inv])
  qed
qed


section \<open>The area filter in terms of regions\<close>

lemma count_list_card: "count_list r v = card {j. j < length r \<and> r ! j = v}"
proof -
  have "{j. j < length r \<and> r ! j = v} = {j. j < length r \<and> v = r ! j}" by auto
  then show ?thesis
    by (simp add: count_list_eq_length_filter length_filter_conv_card)
qed

lemma count_concat: "count_list (concat a) v = card {p. in_bounds a p \<and> item a p = v}"
proof -
  have "{p. in_bounds a p \<and> item a p = v}
      = (SIGMA i:{0..<length a}. {j. j < length (a ! i) \<and> a ! i ! j = v})"
    by (auto simp: in_bounds_def item_def)
  then have "card {p. in_bounds a p \<and> item a p = v}
      = (\<Sum>i = 0..<length a. card {j. j < length (a ! i) \<and> a ! i ! j = v})"
    by simp
  also have "\<dots> = (\<Sum>i = 0..<length a. count_list (a ! i) v)"
    by (simp add: count_list_card)
  also have "\<dots> = sum_list (map (\<lambda>r. count_list r v) a)"
    by (simp add: sum_list_sum_nth)
  finally show ?thesis by (simp add: count_list_concat)
qed

lemma set_concat_items: "set (concat a) = {item a p |p. in_bounds a p}"
proof
  show "set (concat a) \<subseteq> {item a p |p. in_bounds a p}"
  proof
    fix v assume "v \<in> set (concat a)"
    then obtain r where r: "r \<in> set a" "v \<in> set r" by auto
    then obtain i j where "i < length a" "a ! i = r" "j < length r" "r ! j = v"
      by (metis in_set_conv_nth)
    then have "in_bounds a (i, j)" "item a (i, j) = v"
      by (simp_all add: in_bounds_def item_def)
    then show "v \<in> {item a p |p. in_bounds a p}" by blast
  qed
next
  show "{item a p |p. in_bounds a p} \<subseteq> set (concat a)"
  proof
    fix v assume "v \<in> {item a p |p. in_bounds a p}"
    then obtain p where p: "v = item a p" "fst p < length a" "snd p < length (a ! fst p)"
      by (auto simp: in_bounds_def)
    then have "a ! fst p \<in> set a" "v \<in> set (a ! fst p)"
      by (simp_all add: item_def)
    then show "v \<in> set (concat a)" by auto
  qed
qed

lemma bad_labels_filter:
  "bad_labels_of labels k
     = filter (\<lambda>v. real (count_list (concat labels) v) < k) (tl (sort (remdups (concat labels))))"
proof -
  let ?xs = "concat labels"
  let ?l = "sort (remdups ?xs)"
  let ?g = "\<lambda>v. real (count_list ?xs v) < k"
  have "zip (tl ?l) (map (\<lambda>c. real c < k) (tl (map (count_list ?xs) ?l)))
      = map (\<lambda>v. (v, ?g v)) (tl ?l)"
    by (simp add: map_tl [symmetric] zip_map2 zip_same_conv_map comp_def)
  then have "bad_labels_of labels k = map fst (filter snd (map (\<lambda>v. (v, ?g v)) (tl ?l)))"
    by (simp add: bad_labels_of_def unique_counts_def Let_def)
  also have "\<dots> = filter ?g (tl ?l)"
    by (simp add: filter_map comp_def)
  finally show ?thesis .
qed

lemma tl_sorted_distinct_zero:
  fixes l :: "nat list"
  assumes "sorted l" and "distinct l" and "0 \<in> set l"
  shows "set (tl l) = set l - {0}"
proof (cases l)
  case Nil
  then show ?thesis using assms by simp
next
  case (Cons x r)
  have "x = 0"
  proof (rule ccontr)
    assume "x \<noteq> 0"
    then have "0 \<in> set r" using assms(3) Cons by auto
    then have "x \<le> 0" using assms(1) Cons by auto
    then show False using \<open>x \<noteq> 0\<close> by simp
  qed
  then show ?thesis using Cons assms(2) by auto
qed

lemma label_count:
  assumes "feature inp p"
  shows "count_list (concat (fst (label inp (FILTER_KERNELS k))))
           (item (fst (label inp (FILTER_KERNELS k))) p)
         = card (region (FILTER_KERNELS k) inp p)"
proof -
  let ?L = "fst (label inp (FILTER_KERNELS k))"
  have sh: "map length ?L = map length inp" by (rule label_shape)
  have "{q. in_bounds ?L q \<and> item ?L q = item ?L p} = region (FILTER_KERNELS k) inp p"
  proof (intro set_eqI iffI)
    fix q assume "q \<in> {q. in_bounds ?L q \<and> item ?L q = item ?L p}"
    then have "in_bounds inp q" "item ?L q = item ?L p"
      using in_bounds_shape [OF sh] by simp_all
    then show "q \<in> region (FILTER_KERNELS k) inp p"
      using label_same_iff [OF assms] by simp
  next
    fix q assume q: "q \<in> region (FILTER_KERNELS k) inp p"
    have "in_bounds inp q" using region_feature [OF q assms] by (rule feature_in_bounds)
    then show "q \<in> {q. in_bounds ?L q \<and> item ?L q = item ?L p}"
      using q label_same_iff [OF assms] in_bounds_shape [OF sh] by simp
  qed
  then show ?thesis by (simp add: count_concat)
qed

lemma bad_label_iff:
  assumes bg: "in_bounds inp b" "\<not> item inp b" and p: "in_bounds inp p"
  shows "item (fst (label inp (FILTER_KERNELS k))) p
             \<in> set (bad_labels_of (fst (label inp (FILTER_KERNELS k))) c)
         \<longleftrightarrow> feature inp p \<and> real (card (region (FILTER_KERNELS k) inp p)) < c"
proof -
  let ?L = "fst (label inp (FILTER_KERNELS k))"
  have sh: "map length ?L = map length inp" by (rule label_shape)
  have "item ?L b = 0"
    using label_nonzero_iff [OF bg(1), of k] bg(2) by (simp add: feature_def)
  moreover have "in_bounds ?L b" using bg(1) in_bounds_shape [OF sh] by simp
  ultimately have "0 \<in> set (concat ?L)"
    unfolding set_concat_items by (intro CollectI exI [of _ b]) simp
  then have "set (tl (sort (remdups (concat ?L)))) = set (sort (remdups (concat ?L))) - {0}"
    by (intro tl_sorted_distinct_zero) simp_all
  then have tl: "set (tl (sort (remdups (concat ?L)))) = set (concat ?L) - {0}"
    by simp
  have "in_bounds ?L p" using p in_bounds_shape [OF sh] by simp
  then have mem: "item ?L p \<in> set (concat ?L)" unfolding set_concat_items by blast
  show ?thesis
  proof (cases "feature inp p")
    case True
    then have "item ?L p \<noteq> 0" using label_nonzero_iff [OF p] by simp
    then show ?thesis
      using True mem tl label_count [OF True, of k] by (simp add: bad_labels_filter)
  next
    case False
    then have "item ?L p = 0" using label_nonzero_iff [OF p, of k] by simp
    then show ?thesis using False zero_not_bad [of ?L c] by simp
  qed
qed

lemma feature_positive: "feature (positive m) p \<longleftrightarrow> in_bounds m p \<and> item m p > 0"
  by (auto simp: feature_def positive_def in_bounds_def item_def)

lemma area_filter_regions:
  assumes "ex_area \<noteq> 0" and "in_bounds m b" and "\<not> 0 < item m b"
  shows "\<exists>out. area_filter m min_area kern ex_area = Inr out \<and> map length out = map length m
           \<and> (\<forall>p. in_bounds m p \<longrightarrow> item out p =
                 (if item m p > 0
                     \<and> real (card (region (FILTER_KERNELS kern) (positive m) p))
                         < real_of_int \<lceil>min_area / ex_area\<rceil>
                  then 0 else item m p))"
proof -
  let ?inp = "positive m"
  have b1: "in_bounds ?inp b" using assms(2) in_bounds_shape [OF positive_shape] by blast
  have b2: "\<not> item ?inp b"
    using feature_positive [of m b] assms(3) b1 by (simp add: feature_def)
  from area_filter_cell [OF assms(1), of m min_area kern] obtain out where
    out: "area_filter m min_area kern ex_area = Inr out" "map length out = map length m"
      "\<forall>p. in_bounds m p \<longrightarrow> item out p =
         (if item (fst (label ?inp (FILTER_KERNELS kern))) p
               \<in> set (bad_labels_of (fst (label ?inp (FILTER_KERNELS kern)))
                       (real_of_int \<lceil>min_area / ex_area\<rceil>))
          then 0 else item m p)"
    by blast
  have "item out p = (if item m p > 0
                     \<and> real (card (region (FILTER_KERNELS kern) ?inp p))
                         < real_of_int \<lceil>min_area / ex_area\<rceil>
                  then 0 else item m p)" if "in_bounds m p" for p
  proof -
    have "in_bounds ?inp p" using that in_bounds_shape [OF positive_shape] by blast
    from bad_label_iff [OF b1 b2 this, of kern "real_of_int \<lceil>min_area / ex_area\<rceil>"]
    show ?thesis
      using out(3) [rule_format, OF that] that feature_positive [of m p] by simp
  qed
  then show ?thesis using out(1,2) by blast
qed


lemma region_mono:
  assumes "\<And>q. feature inp' q \<Longrightarrow> feature inp q"
  shows "region s inp' p \<subseteq> region s inp p"
proof -
  have "adjacent s inp' \<subseteq> adjacent s inp"
    using assms by (auto simp: adjacent_def)
  then have "(adjacent s inp')\<^sup>* \<subseteq> (adjacent s inp)\<^sup>*" by (rule rtrancl_mono)
  then show ?thesis unfolding region_def by blast
qed

lemma region_within:
  assumes "\<And>q. q \<in> region s inp p \<Longrightarrow> feature inp' q"
  shows "region s inp p \<subseteq> region s inp' p"
proof
  fix q assume "q \<in> region s inp p"
  then have "(p, q) \<in> (adjacent s inp)\<^sup>*" by (simp add: region_def)
  then show "q \<in> region s inp' p"
  proof (induction rule: rtrancl_induct)
    case base
    then show ?case by (rule region_refl)
  next
    case (step y z)
    have y: "y \<in> region s inp p" using step.hyps(1) by (simp add: region_def)
    have z: "z \<in> region s inp p"
      using step.hyps(1,2) unfolding region_def by (auto intro: rtrancl_into_rtrancl)
    have "(y, z) \<in> adjacent s inp'"
      using step.hyps(2) assms [OF y] assms [OF z] by (simp add: adjacent_def)
    then show ?case using step.IH unfolding region_def by (auto intro: rtrancl_into_rtrancl)
  qed
qed

lemma neighboursI:
  assumes "di < 3" and "dj < 3" and "s ! di ! dj \<noteq> 0" and "1 \<le> fst p + di"
    and "1 \<le> snd p + dj"
  shows "(fst p + di - 1, snd p + dj - 1) \<in> set (neighbours s p)"
  unfolding neighbours_iff using assms by blast

lemma step_right:
  assumes "feature inp (i, j)" and "feature inp (i, Suc j)"
  shows "((i, j), (i, Suc j)) \<in> adjacent (FILTER_KERNELS k) inp"
proof -
  have "FILTER_KERNELS k ! 1 ! 2 \<noteq> 0" by (cases k) (simp_all add: FILTER_KERNELS_def)
  then have "(i, Suc j) \<in> set (neighbours (FILTER_KERNELS k) (i, j))"
    using neighboursI [of 1 2 "FILTER_KERNELS k" "(i, j)"] by simp
  then show ?thesis using assms by (simp add: adjacent_def)
qed

lemma step_down:
  assumes "feature inp (i, j)" and "feature inp (Suc i, j)"
  shows "((i, j), (Suc i, j)) \<in> adjacent (FILTER_KERNELS k) inp"
proof -
  have "FILTER_KERNELS k ! 2 ! 1 \<noteq> 0" by (cases k) (simp_all add: FILTER_KERNELS_def)
  then have "(Suc i, j) \<in> set (neighbours (FILTER_KERNELS k) (i, j))"
    using neighboursI [of 2 1 "FILTER_KERNELS k" "(i, j)"] by simp
  then show ?thesis using assms by (simp add: adjacent_def)
qed

lemma row_run:
  assumes "\<And>j'. a \<le> j' \<Longrightarrow> j' \<le> a + d \<Longrightarrow> feature inp (i, j')"
  shows "(i, a + d) \<in> region (FILTER_KERNELS k) inp (i, a)"
  using assms
proof (induction d)
  case 0
  then show ?case by (simp add: region_refl)
next
  case (Suc d)
  have "(i, a + d) \<in> region (FILTER_KERNELS k) inp (i, a)"
    using Suc.prems by (intro Suc.IH) simp_all
  moreover have "((i, a + d), (i, Suc (a + d))) \<in> adjacent (FILTER_KERNELS k) inp"
    using Suc.prems by (intro step_right) simp_all
  ultimately show ?case
    unfolding region_def by (auto intro: rtrancl_into_rtrancl)
qed

lemma column_run:
  assumes "\<And>i'. a \<le> i' \<Longrightarrow> i' \<le> a + d \<Longrightarrow> feature inp (i', j)"
  shows "(a + d, j) \<in> region (FILTER_KERNELS k) inp (a, j)"
  using assms
proof (induction d)
  case 0
  then show ?case by (simp add: region_refl)
next
  case (Suc d)
  have "(a + d, j) \<in> region (FILTER_KERNELS k) inp (a, j)"
    using Suc.prems by (intro Suc.IH) simp_all
  moreover have "((a + d, j), (Suc (a + d), j)) \<in> adjacent (FILTER_KERNELS k) inp"
    using Suc.prems by (intro step_down) simp_all
  ultimately show ?case
    unfolding region_def by (auto intro: rtrancl_into_rtrancl)
qed

lemma rect_in_bounds:
  assumes "rect a" and "in_bounds a (i, j)" and "i' < length a"
  shows "in_bounds a (i', j)"
proof -
  have "length (a ! i) = length (hd a)" "length (a ! i') = length (hd a)"
    using assms by (simp_all add: rect_def in_bounds_def)
  then show ?thesis using assms(2,3) by (simp add: in_bounds_def)
qed

lemma full_grid_region:
  assumes r: "rect inp" and full: "\<And>q. in_bounds inp q \<Longrightarrow> item inp q"
    and p: "in_bounds inp p"
  shows "p \<in> region (FILTER_KERNELS k) inp (0, 0)"
proof -
  obtain i j where ij: "p = (i, j)" by (cases p)
  have i: "i < length inp" using p ij by (simp add: in_bounds_def)
  have ft: "feature inp q" if "in_bounds inp q" for q
    using that full by (simp add: feature_def)
  have "feature inp (i', 0)" if "i' \<le> i" for i'
  proof -
    have "in_bounds inp (i', j)"
      using rect_in_bounds [OF r p [unfolded ij], of i'] i that by simp
    then have "in_bounds inp (i', 0)" by (auto simp: in_bounds_def)
    then show ?thesis by (rule ft)
  qed
  then have c: "(i, 0) \<in> region (FILTER_KERNELS k) inp (0, 0)"
    using column_run [of 0 i inp 0 k] by simp
  have "feature inp (i, j')" if "j' \<le> j" for j'
  proof -
    have "in_bounds inp (i, j')" using p that unfolding ij by (simp add: in_bounds_def)
    then show ?thesis by (rule ft)
  qed
  then have "(i, j) \<in> region (FILTER_KERNELS k) inp (i, 0)"
    using row_run [of 0 j inp i k] by simp
  with c show ?thesis unfolding ij by (rule region_trans)
qed

lemma ndarray_eqI:
  assumes "map length a = map length b" and "\<And>p. in_bounds a p \<Longrightarrow> item a p = item b p"
  shows "a = b"
proof (rule nth_equalityI)
  show l: "length a = length b" using assms(1) by (rule map_eq_imp_length_eq)
  fix i assume i: "i < length a"
  have li: "length (a ! i) = length (b ! i)"
    using assms(1) i l by (metis length_map nth_map)
  show "a ! i = b ! i"
  proof (rule nth_equalityI)
    show "length (a ! i) = length (b ! i)" by (rule li)
    fix j assume "j < length (a ! i)"
    then have "in_bounds a (i, j)" using i by (simp add: in_bounds_def)
    then show "a ! i ! j = b ! i ! j" using assms(2) [of "(i, j)"] by (simp add: item_def)
  qed
qed

lemma distinct_singleton:
  assumes "distinct xs" and "set xs \<subseteq> {c}"
  shows "tl xs = []"
proof (cases xs)
  case Nil
  then show ?thesis by simp
next
  case (Cons x r)
  then have "x = c" "set r \<subseteq> {c}" "x \<notin> set r" using assms by auto
  then have "r = []" by (cases r) auto
  then show ?thesis using Cons by simp
qed

lemma area_filter_all_foreground:
  assumes ex: "ex_area \<noteq> 0" and r: "rect m" and full: "\<And>q. in_bounds m q \<Longrightarrow> item m q > 0"
  shows "area_filter m min_area kern ex_area = Inr m"
proof -
  let ?inp = "positive m"
  let ?L = "fst (label ?inp (FILTER_KERNELS kern))"
  have sh: "map length ?L = map length ?inp" by (rule label_shape)
  have ri: "rect ?inp" using r by (cases m) (auto simp: rect_def positive_def)
  have fi: "item ?inp q" if "in_bounds ?inp q" for q
    using that full [of q] feature_positive [of m q] in_bounds_shape [OF positive_shape, of m q]
    by (simp add: feature_def)
  have same: "item ?L q = item ?L (0, 0)" if "in_bounds ?L q" for q
  proof -
    have qb: "in_bounds ?inp q" using that in_bounds_shape [OF sh] by simp
    then have q0: "q \<in> region (FILTER_KERNELS kern) ?inp (0, 0)"
      using ri fi by (intro full_grid_region)
    obtain a b where ab: "q = (a, b)" by (cases q)
    have "0 < length ?inp" using qb by (auto simp: in_bounds_def)
    then have "in_bounds ?inp (0, b)"
      by (rule rect_in_bounds [OF ri qb [unfolded ab]])
    then have "in_bounds ?inp (0, 0)" by (auto simp: in_bounds_def)
    then have "feature ?inp (0, 0)" using fi by (simp add: feature_def)
    then show ?thesis using label_same_iff [OF _ qb] q0 by simp
  qed
  have "set (concat ?L) \<subseteq> {item ?L (0, 0)}"
    unfolding set_concat_items using same by blast
  then have "set (sort (remdups (concat ?L))) \<subseteq> {item ?L (0, 0)}"
    by simp
  then have "tl (sort (remdups (concat ?L))) = []"
    by (intro distinct_singleton) simp_all
  then have bad: "bad_labels_of ?L c = []" for c
    by (simp add: bad_labels_filter)
  from area_filter_cell [OF ex, of m min_area kern] obtain out where
    out: "area_filter m min_area kern ex_area = Inr out" "map length out = map length m"
      "\<forall>p. in_bounds m p \<longrightarrow> item out p =
         (if item ?L p \<in> set (bad_labels_of ?L (real_of_int \<lceil>min_area / ex_area\<rceil>))
          then 0 else item m p)"
    by blast
  have "out = m"
  proof (rule ndarray_eqI)
    show "map length out = map length m" by (rule out(2))
    fix p assume "in_bounds out p"
    then have "in_bounds m p" using in_bounds_shape [OF out(2)] by simp
    then show "item out p = item m p" using out(3) [rule_format, of p] bad by simp
  qed
  then show ?thesis using out(1) by simp
qed


section \<open>Small regions\<close>

text \<open>
  The example of the specification: one isolated foreground pixel on a 5 x 5 grid, pixel
  area 0.0081. With minimum area 0.01 the pixel is removed, with 0.005 it stays.
\<close>

lemma area_filter_isolated_pixel_removed_queen:
  "area_filter [[0, 0, 0, 0, 0], [0, 0, 0, 0, 0], [0, 0, 1, 0, 0], [0, 0, 0, 0, 0], [0, 0, 0, 0, 0]]
      (1 / 100) Queen (81 / 10000)
     = Inr [[0, 0, 0, 0, 0], [0, 0, 0, 0, 0], [0, 0, 0, 0, 0], [0, 0, 0, 0, 0], [0, 0, 0, 0, 0]]"
  by code_simp

lemma area_filter_isolated_pixel_kept_queen:
  "area_filter [[0, 0, 0, 0, 0], [0, 0, 0, 0, 0], [0, 0, 1, 0, 0], [0, 0, 0, 0, 0], [0, 0, 0, 0, 0]]
      (5 / 1000) Queen (81 / 10000)
     = Inr [[0, 0, 0, 0, 0], [0, 0, 0, 0, 0], [0, 0, 1, 0, 0], [0, 0, 0, 0, 0], [0, 0, 0, 0, 0]]"
  by code_simp

lemma area_filter_isolated_pixel_removed_rook:
  "area_filter [[0, 0, 0, 0, 0], [0, 0, 0, 0, 0], [0, 0, 1, 0, 0], [0, 0, 0, 0, 0], [0, 0, 0, 0, 0]]
      (1 / 100) Rook (81 / 10000)
     = Inr [[0, 0, 0, 0, 0], [0, 0, 0, 0, 0], [0, 0, 0, 0, 0], [0, 0, 0, 0, 0], [0, 0, 0, 0, 0]]"
  by code_simp

lemma area_filter_isolated_pixel_kept_rook:
  "area_filter [[0, 0, 0, 0, 0], [0, 0, 0, 0, 0], [0, 0, 1, 0, 0], [0, 0, 0, 0, 0], [0, 0, 0, 0, 0]]
      (5 / 1000) Rook (81 / 10000)
     = Inr [[0, 0, 0, 0, 0], [0, 0, 0, 0, 0], [0, 0, 1, 0, 0], [0, 0, 0, 0, 0], [0, 0, 0, 0, 0]]"
  by code_simp

text \<open>
  Claim C3 states that for every mask the filter zeroes exactly the foreground regions
  whose pixel count times the pixel area is below the minimum area. On the 2 x 2 mask of
  ones, with minimum area 1 and pixel area 0.0081, the only region has 4 pixels, and
  4 x 0.0081 is below 1, yet the filter returns the mask unchanged: with no background cell
  the first entry skipped by \<^verbatim>\<open>c[1:]\<close> and \<^verbatim>\<open>l[1:]\<close> is the region's own label.
\<close>

theorem area_filter_keeps_small_full_mask:
  "area_filter [[1, 1], [1, 1]] 1 Queen (81 / 10000) = Inr [[1, 1], [1, 1]]
   \<and> real (length (flood (FILTER_KERNELS Queen) (positive [[1, 1], [1, 1]]) [(0, 0)] []))
         * (81 / 10000) < 1"
proof
  show "area_filter [[1, 1], [1, 1]] 1 Queen (81 / 10000) = Inr [[1, 1], [1, 1]]"
    by code_simp
next
  have "length (flood (FILTER_KERNELS Queen) (positive [[1, 1], [1, 1]]) [(0, 0)] []) = 4"
    by code_simp
  then show "real (length (flood (FILTER_KERNELS Queen) (positive [[1, 1], [1, 1]]) [(0, 0)] []))
      * (81 / 10000) < 1"
    by simp
qed

section \<open>Idempotence of the area filter\<close>

lemma area_filter_refilter:
  assumes ex: "ex_area \<noteq> 0" and b: "in_bounds m b" "\<not> 0 < item m b"
    and out: "area_filter m min_area kern ex_area = Inr out"
  shows "area_filter out min_area kern ex_area = Inr out"
proof -
  let ?s = "FILTER_KERNELS kern"
  let ?c = "real_of_int \<lceil>min_area / ex_area\<rceil>"
  from area_filter_regions [OF ex b, of min_area kern] out
  have sh: "map length out = map length m"
    and cell: "\<And>p. in_bounds m p \<Longrightarrow> item out p =
         (if item m p > 0 \<and> real (card (region ?s (positive m) p)) < ?c then 0 else item m p)"
    by auto
  have bo: "in_bounds out b" using b(1) in_bounds_shape [OF sh] by simp
  have zo: "\<not> 0 < item out b" using cell [OF b(1)] b(2) by simp
  from area_filter_regions [OF ex bo zo, of min_area kern] obtain out2 where
    out2: "area_filter out min_area kern ex_area = Inr out2" "map length out2 = map length out"
      "\<forall>p. in_bounds out p \<longrightarrow> item out2 p =
         (if item out p > 0 \<and> real (card (region ?s (positive out) p)) < ?c
          then 0 else item out p)"
    by blast
  have sub: "feature (positive m) q" if "feature (positive out) q" for q
  proof -
    have q: "in_bounds m q" "item out q > 0"
      using that in_bounds_shape [OF sh] by (simp_all add: feature_positive)
    then have "item m q > 0" using cell [OF q(1)] by (auto split: if_splits)
    then show ?thesis using q(1) by (simp add: feature_positive)
  qed
  have keep: "region ?s (positive out) p = region ?s (positive m) p"
    if p: "in_bounds m p" "item out p > 0" for p
  proof
    show "region ?s (positive out) p \<subseteq> region ?s (positive m) p"
      using sub by (rule region_mono)
  next
    have pm: "item m p > 0" "\<not> real (card (region ?s (positive m) p)) < ?c"
      using cell [OF p(1)] p(2) by (auto split: if_splits)
    have fp: "feature (positive m) p" using p(1) pm(1) by (simp add: feature_positive)
    show "region ?s (positive m) p \<subseteq> region ?s (positive out) p"
    proof (rule region_within)
      fix q assume q: "q \<in> region ?s (positive m) p"
      have fq: "feature (positive m) q" using q fp by (rule region_feature)
      then have qb: "in_bounds m q" and qp: "item m q > 0" by (simp_all add: feature_positive)
      have "region ?s (positive m) q = region ?s (positive m) p" using q by (rule region_eq)
      then have "item out q = item m q" using cell [OF qb] pm(2) by simp
      then show "feature (positive out) q"
        using qb qp in_bounds_shape [OF sh] by (simp add: feature_positive)
    qed
  qed
  have "out2 = out"
  proof (rule ndarray_eqI)
    show "map length out2 = map length out" by (rule out2(2))
    fix p assume "in_bounds out2 p"
    then have po: "in_bounds out p" using in_bounds_shape [OF out2(2)] by simp
    then have pm: "in_bounds m p" using in_bounds_shape [OF sh] by simp
    show "item out2 p = item out p"
    proof (cases "item out p > 0")
      case True
      then have "\<not> real (card (region ?s (positive m) p)) < ?c"
        using cell [OF pm] by (auto split: if_splits)
      then show ?thesis
        using out2(3) [rule_format, OF po] keep [OF pm True] by simp
    next
      case False
      then show ?thesis using out2(3) [rule_format, OF po] by simp
    qed
  qed
  then show ?thesis using out2(1) by simp
qed

text \<open>
  Claim C6: for a rectangular mask, every kernel, every minimum area and a non-zero pixel
  area, the filter returns a mask, and filtering that mask again with the same kernel and
  minimum area returns it unchanged.
\<close>

theorem area_filter_idempotent:
  assumes "rect m" and "ex_area \<noteq> 0"
  shows "\<exists>out. area_filter m min_area kern ex_area = Inr out
           \<and> area_filter out min_area kern ex_area = Inr out"
proof (cases "\<exists>b. in_bounds m b \<and> \<not> 0 < item m b")
  case True
  then obtain b where b: "in_bounds m b" "\<not> 0 < item m b" by blast
  from area_filter_regions [OF assms(2) b, of min_area kern] obtain out where
    "area_filter m min_area kern ex_area = Inr out" by blast
  then show ?thesis using area_filter_refilter [OF assms(2) b] by blast
next
  case False
  then have "area_filter m min_area kern ex_area = Inr m"
    using assms by (intro area_filter_all_foreground) (auto simp: not_le)
  then show ?thesis by simp
qed

theorem area_filter_idempotent_witness:
  "rect [[1, 0, 1], [1, 0, 0 :: float16]] \<and> (81 / 10000 :: real) \<noteq> 0
   \<and> (\<exists>out. area_filter [[1, 0, 1], [1, 0, 0]] (1 / 100) Rook (81 / 10000) = Inr out
          \<and> area_filter out (1 / 100) Rook (81 / 10000) = Inr out)"
proof -
  have h: "rect [[1, 0, 1], [1, 0, 0 :: float16]]" "(81 / 10000 :: real) \<noteq> 0"
    by (simp_all add: rect_def)
  show ?thesis
    using h area_filter_idempotent [OF h, of "1 / 100" Rook] by blast
qed

section \<open>Filtering a padded window\<close>

lemma py_slice_nonneg:
  assumes "0 \<le> i" and "0 \<le> j"
  shows "py_slice (Some i, Some j) xs = take (nat j - nat i) (drop (nat i) xs)"
  using assms by (auto simp: py_slice_def slice_bound_def Let_def min_def)

lemma py_slice_all: "py_slice (None, None) xs = xs"
  by (simp add: py_slice_def)

lemma getitem_slices_all: "getitem_slices a ((None, None), (None, None)) = a"
  by (simp add: getitem_slices_def py_slice_all map_idI)

lemma getitem_slices_topleft:
  assumes "0 \<le> h" and "0 \<le> w"
  shows "getitem_slices a ((Some 0, Some h), (Some 0, Some w)) = topleft (nat h) (nat w) a"
  using assms by (simp add: getitem_slices_def py_slice_nonneg topleft_def)

lemma getitem_slices_length:
  assumes "0 \<le> r0" "r0 \<le> r1" and "nat r1 \<le> length a"
  shows "length (getitem_slices a ((Some r0, Some r1), cs)) = nat r1 - nat r0"
proof -
  have "0 \<le> r1" using assms(1,2) by simp
  with assms(1) have "py_slice (Some r0, Some r1) a = take (nat r1 - nat r0) (drop (nat r0) a)"
    by (rule py_slice_nonneg)
  then show ?thesis using assms(3) by (simp add: getitem_slices_def)
qed

lemma getitem_slices_row:
  assumes "0 \<le> r0" "r0 \<le> r1" "0 \<le> c0" "c0 \<le> c1"
    and "nat r1 \<le> length a" and "i < nat r1 - nat r0"
  shows "getitem_slices a ((Some r0, Some r1), (Some c0, Some c1)) ! i
       = take (nat c1 - nat c0) (drop (nat c0) (a ! (nat r0 + i)))"
proof -
  have r1: "0 \<le> r1" and c1: "0 \<le> c1" using assms(1-4) by simp_all
  have rows: "py_slice (Some r0, Some r1) a = take (nat r1 - nat r0) (drop (nat r0) a)"
    using assms(1) r1 by (rule py_slice_nonneg)
  have cols: "py_slice (Some c0, Some c1) xs = take (nat c1 - nat c0) (drop (nat c0) xs)" for xs :: "'a list"
    using assms(3) c1 by (rule py_slice_nonneg)
  have "i < length (take (nat r1 - nat r0) (drop (nat r0) a))"
    using assms(5,6) by simp
  then show "getitem_slices a ((Some r0, Some r1), (Some c0, Some c1)) ! i
       = take (nat c1 - nat c0) (drop (nat c0) (a ! (nat r0 + i)))"
    using assms(5,6) by (simp add: getitem_slices_def rows cols)
qed

lemma getitem_slices_shape:
  assumes "0 \<le> r0" "r0 \<le> r1" "0 \<le> c0" "c0 \<le> c1"
    and "nat r1 \<le> length a" and "\<forall>r \<in> set a. nat c1 \<le> length r"
  shows "map length (getitem_slices a ((Some r0, Some r1), (Some c0, Some c1)))
       = replicate (nat r1 - nat r0) (nat c1 - nat c0)"
proof (rule nth_equalityI)
  show "length (map length (getitem_slices a ((Some r0, Some r1), (Some c0, Some c1))))
      = length (replicate (nat r1 - nat r0) (nat c1 - nat c0))"
    using getitem_slices_length [OF assms(1,2,5)] by simp
  fix i assume "i < length (map length (getitem_slices a ((Some r0, Some r1), (Some c0, Some c1))))"
  then have i: "i < nat r1 - nat r0"
    using getitem_slices_length [OF assms(1,2,5)] by simp
  then have "nat r0 + i < length a" using assms(5) by simp
  then have "a ! (nat r0 + i) \<in> set a" by simp
  then have "nat c1 \<le> length (a ! (nat r0 + i))" using assms(6) by blast
  then have "length (take (nat c1 - nat c0) (drop (nat c0) (a ! (nat r0 + i)))) = nat c1 - nat c0"
    by simp
  then have "length (getitem_slices a ((Some r0, Some r1), (Some c0, Some c1)) ! i)
      = nat c1 - nat c0"
    using getitem_slices_row [OF assms(1-5) i] by simp
  then show "map length (getitem_slices a ((Some r0, Some r1), (Some c0, Some c1))) ! i
      = replicate (nat r1 - nat r0) (nat c1 - nat c0) ! i"
    using getitem_slices_length [OF assms(1,2,5), of "(Some c0, Some c1)"] i by simp
qed

lemma getitem_slices_nth:
  assumes "0 \<le> r0" "r0 \<le> r1" "0 \<le> c0" "c0 \<le> c1"
    and "nat r1 \<le> length a" and "i < nat r1 - nat r0" and "j < nat c1 - nat c0"
    and "nat c1 \<le> length (a ! (nat r0 + i))"
  shows "getitem_slices a ((Some r0, Some r1), (Some c0, Some c1)) ! i ! j
       = a ! (nat r0 + i) ! (nat c0 + j)"
  using getitem_slices_row [OF assms(1-6)] assms(7,8) by simp

lemma topleft_map: "topleft h w (map (map f) a) = map (map f) (topleft h w a)"
  by (simp add: topleft_def take_map)

lemma topleft_mult:
  "topleft h w (mult_arrays a b) = mult_arrays (topleft h w a) (topleft h w b)"
  by (auto simp: topleft_def mult_arrays_def take_map take_zip zip_map_map)

lemma apply_mask_topleft:
  "apply_mask lm (topleft h w d) = map_sum id (topleft h w) (apply_mask lm d)"
  by (simp add: apply_mask_def times_weight_def astype_float_def astype_float16_def
      range_mask_def exclusion_mask_def inclusion_mask_def value_mask_def isin_def Let_def
      topleft_map)

lemma combine_layers_topleft:
  assumes "\<And>l. rd l ds' = topleft h w (rd l ds)"
  shows "combine_layers rd ds' ls (map_option (topleft h w) acc)
       = map_sum id (map_option (topleft h w)) (combine_layers rd ds ls acc)"
proof (induction ls arbitrary: acc)
  case Nil
  then show ?case by simp
next
  case (Cons lm ls)
  show ?case
  proof (cases "apply_mask lm (rd (layer lm) ds)")
    case (Inl e)
    then show ?thesis by (simp add: assms apply_mask_topleft)
  next
    case (Inr out)
    show ?thesis
    proof (cases acc)
      case None
      then show ?thesis
        using Inr Cons.IH [of "Some out"] by (simp add: assms apply_mask_topleft)
    next
      case (Some m)
      then show ?thesis
        using Inr Cons.IH [of "Some (mult_arrays m out)"]
        by (simp add: assms apply_mask_topleft topleft_mult)
    qed
  qed
qed


lemma in_bounds_topleft:
  "in_bounds (topleft h w a) p \<longleftrightarrow> in_bounds a p \<and> fst p < h \<and> snd p < w"
  by (auto simp: in_bounds_def topleft_def)

lemma item_topleft: "in_bounds (topleft h w a) p \<Longrightarrow> item (topleft h w a) p = item a p"
  by (auto simp: in_bounds_def topleft_def item_def)

lemma positive_topleft: "positive (topleft h w a) = topleft h w (positive a)"
  by (simp add: positive_def topleft_map)

lemma feature_topleft:
  "feature (topleft h w inp) p \<longleftrightarrow> feature inp p \<and> fst p < h \<and> snd p < w"
  using in_bounds_topleft [of h w inp p] item_topleft [of h w inp p]
  by (auto simp: feature_def)

lemma finite_features: "finite {p. feature inp p}"
proof -
  have "{p. feature inp p} \<subseteq> (SIGMA i:{..<length inp}. {..<length (inp ! i)})"
    by (auto simp: feature_def in_bounds_def)
  then show ?thesis by (rule finite_subset) simp
qed

lemma region_subset: "region s inp p \<subseteq> insert p {q. feature inp q}"
proof
  fix q assume "q \<in> region s inp p"
  then have "(p, q) \<in> (adjacent s inp)\<^sup>*" by (simp add: region_def)
  then show "q \<in> insert p {q. feature inp q}"
    by (induction rule: rtrancl_induct) (auto simp: adjacent_def)
qed

lemma finite_region: "finite (region s inp p)"
  using region_subset [of s inp p] finite_features [of inp]
  by (meson finite_insert finite_subset)

lemma padded_cell:
  assumes ex: "ex_area \<noteq> 0"
    and b: "in_bounds (topleft h w whole) b" "\<not> 0 < item whole b"
    and fw: "area_filter (topleft h w whole) min_area kern ex_area = Inr fw"
    and fd: "area_filter whole min_area kern ex_area = Inr fd"
    and p: "in_bounds (topleft h w whole) p"
  shows "(item fw p = item fd p \<or> item fw p = 0)
       \<and> ((\<forall>q \<in> set (flood (FILTER_KERNELS kern) (positive whole) [p] []). fst q < h \<and> snd q < w)
            \<longrightarrow> item fw p = item fd p)"
proof -
  let ?s = "FILTER_KERNELS kern"
  let ?W = "topleft h w whole"
  let ?c = "real_of_int \<lceil>min_area / ex_area\<rceil>"
  have bd: "in_bounds whole b" and pd: "in_bounds whole p"
    using b(1) p by (simp_all add: in_bounds_topleft)
  have bw: "\<not> 0 < item ?W b" using b by (simp add: item_topleft)
  have pw: "item ?W p = item whole p" using p by (rule item_topleft)
  from area_filter_regions [OF ex b(1) bw, of min_area kern] obtain o1 where
    o1: "area_filter ?W min_area kern ex_area = Inr o1"
      "\<forall>p. in_bounds ?W p \<longrightarrow> item o1 p =
         (if item ?W p > 0 \<and> real (card (region ?s (positive ?W) p)) < ?c
          then 0 else item ?W p)"
    by blast
  have "o1 = fw" using o1(1) fw by simp
  then have cw: "item fw p = (if item whole p > 0 \<and> real (card (region ?s (positive ?W) p)) < ?c
                         then 0 else item whole p)"
    using o1(2) [rule_format, OF p] pw by simp
  from area_filter_regions [OF ex bd b(2), of min_area kern] obtain o2 where
    o2: "area_filter whole min_area kern ex_area = Inr o2"
      "\<forall>p. in_bounds whole p \<longrightarrow> item o2 p =
         (if item whole p > 0 \<and> real (card (region ?s (positive whole) p)) < ?c
          then 0 else item whole p)"
    by blast
  have "o2 = fd" using o2(1) fd by simp
  then have cd: "item fd p = (if item whole p > 0 \<and> real (card (region ?s (positive whole) p)) < ?c
                         then 0 else item whole p)"
    using o2(2) [rule_format, OF pd] by simp
  have sub: "region ?s (positive ?W) p \<subseteq> region ?s (positive whole) p"
    by (rule region_mono) (simp add: positive_topleft feature_topleft)
  then have "card (region ?s (positive ?W) p) \<le> card (region ?s (positive whole) p)"
    by (intro card_mono finite_region)
  then have one: "item fw p = item fd p \<or> item fw p = 0"
    using cw cd by auto
  have two: "item fw p = item fd p"
    if inside: "\<forall>q \<in> set (flood ?s (positive whole) [p] []). fst q < h \<and> snd q < w"
  proof (cases "item whole p > 0")
    case True
    then have fp: "feature (positive whole) p" using pd by (simp add: feature_positive)
    have ins: "\<And>q. q \<in> region ?s (positive whole) p \<Longrightarrow> fst q < h \<and> snd q < w"
      using inside unfolding flood_region [OF fp] by blast
    have "region ?s (positive whole) p \<subseteq> region ?s (positive ?W) p"
    proof (rule region_within)
      fix q assume q: "q \<in> region ?s (positive whole) p"
      then have "feature (positive whole) q" using fp by (rule region_feature)
      then show "feature (positive ?W) q"
        using ins [OF q] by (simp add: positive_topleft feature_topleft)
    qed
    with sub have "region ?s (positive ?W) p = region ?s (positive whole) p" by blast
    then show ?thesis using cw cd by simp
  next
    case False
    then show ?thesis using cw cd by simp
  qed
  show ?thesis using one two by blast
qed


lemma in_bounds_replicate:
  assumes "map length a = replicate h w"
  shows "in_bounds a p \<longleftrightarrow> fst p < h \<and> snd p < w"
proof -
  have l: "length a = h" using assms by (metis length_map length_replicate)
  have "length (a ! i) = w" if "i < h" for i
    using assms that l by (metis nth_map nth_replicate)
  then show ?thesis using l by (auto simp: in_bounds_def)
qed

lemma shape_topleft:
  assumes "map length a = replicate H W" and "h \<le> H" and "w \<le> W"
  shows "map length (topleft h w a) = replicate h w"
proof (rule nth_equalityI)
  have l: "length a = H" using assms(1) by (metis length_map length_replicate)
  then show "length (map length (topleft h w a)) = length (replicate h w)"
    using assms(2) by (simp add: topleft_def)
  fix i assume "i < length (map length (topleft h w a))"
  then have i: "i < h" using l assms(2) by (simp add: topleft_def)
  then have "length (a ! i) = W" using assms(1,2) l by (metis less_le_trans nth_map nth_replicate)
  then show "map length (topleft h w a) ! i = replicate h w ! i"
    using i l assms(2,3) by (simp add: topleft_def)
qed

lemma area_filter_total:
  assumes "ex_area \<noteq> 0"
  shows "\<exists>out. area_filter m min_area kern ex_area = Inr out \<and> map length out = map length m"
  using area_filter_cell [OF assms, of m min_area kern] by blast

text \<open>
  Claim C1, as amended. On a 100 x 100 domain the window rows 10:20, columns 10:20 is
  padded to rows 0:30, columns 0:30 and the recovery offset is rows 10:20, columns 10:20.
  When the padded window of the combined mask has a cell that is not strictly positive,
  the mask returned for the window has shape 10 x 10, each of its cells is 0 or equals the
  cell of the filtered full-domain mask, and it equals that cell whenever the cell's
  foreground region in the full domain lies inside rows 0:30, columns 0:30. The store is
  assumed to return, for a window of two slices, the slice of its full-domain read.
\<close>

theorem padded_window_filter:
  assumes store: "windowed_store excl_h5"
    and unfiltered: "generate_mask excl_h5 (100, 100) layers None kern [Ellipsis] = Inr (Some whole)"
    and shape: "map length whole = replicate 100 100"
    and bg: "fst b < 30" "snd b < 30" "\<not> 0 < item whole b"
  shows "increase_mask_slice (100, 100) [Slice (Some 10) (Some 20), Slice (Some 10) (Some 20)] 1
           = Inr ([Slice (Some 0) (Some 30), Slice (Some 0) (Some 30)],
                  (Some 10, Some 20), (Some 10, Some 20))
       \<and> (\<exists>win filtered.
             generate_mask excl_h5 (100, 100) layers (Some min_area) kern
                 [Slice (Some 10) (Some 20), Slice (Some 10) (Some 20)] = Inr (Some win)
           \<and> generate_mask excl_h5 (100, 100) layers (Some min_area) kern [Ellipsis]
                 = Inr (Some filtered)
           \<and> map length win = replicate 10 10
           \<and> (\<forall>i < 10. \<forall>j < 10.
                 (win ! i ! j = filtered ! (10 + i) ! (10 + j) \<or> win ! i ! j = 0)
               \<and> ((\<forall>q \<in> set (flood (FILTER_KERNELS kern) (positive whole) [(10 + i, 10 + j)] []).
                       fst q < 30 \<and> snd q < 30)
                    \<longrightarrow> win ! i ! j = filtered ! (10 + i) ! (10 + j))))"
proof -
  let ?ws = "[Slice (Some 10) (Some 20), Slice (Some 10) (Some 20)]"
  let ?pad = "[Slice (Some 0) (Some 30), Slice (Some 0) (Some 30)]"
  let ?sub = "((Some 10, Some 20), (Some 10, Some 20)) :: pyslice \<times> pyslice"
  let ?W = "topleft 30 30 whole"
  have inc: "increase_mask_slice (100, 100) ?ws 1 = Inr (?pad, ?sub)"
    by (simp add: increase_mask_slice_def)
  have inc_all: "increase_mask_slice (100, 100) [Ellipsis] 1
      = Inr ([Ellipsis], (None, None), (None, None))"
    by (simp add: increase_mask_slice_def)
  have comb: "combine_layers excl_h5 [Ellipsis] layers None = Inr (Some whole)"
    using unfiltered by (simp add: generate_mask_def)
  have rd: "excl_h5 l ?pad = topleft 30 30 (excl_h5 l [Ellipsis])" for l
    using store getitem_slices_topleft [of 30 30 "excl_h5 l [Ellipsis]"]
    by (simp add: windowed_store_def)
  have "combine_layers excl_h5 ?pad layers (map_option (topleft 30 30) None)
      = map_sum id (map_option (topleft 30 30)) (combine_layers excl_h5 [Ellipsis] layers None)"
    using rd by (rule combine_layers_topleft)
  then have comb_pad: "combine_layers excl_h5 ?pad layers None = Inr (Some ?W)"
    using comb by simp
  have ex: "(81 / 10000 :: real) \<noteq> 0" by simp
  from area_filter_total [OF ex, of whole min_area kern] obtain fd where
    fd: "area_filter whole min_area kern (81 / 10000) = Inr fd" "map length fd = map length whole"
    by blast
  from area_filter_total [OF ex, of ?W min_area kern] obtain fw where
    fw: "area_filter ?W min_area kern (81 / 10000) = Inr fw" "map length fw = map length ?W"
    by blast
  have shW: "map length ?W = replicate 30 30"
    using shape by (rule shape_topleft) simp_all
  have shfw: "map length fw = replicate 30 30" using fw(2) shW by simp
  let ?win = "getitem_slices fw ?sub"
  have g1: "generate_mask excl_h5 (100, 100) layers (Some min_area) kern ?ws = Inr (Some ?win)"
    by (simp add: generate_mask_def inc comb_pad fw(1))
  have g2: "generate_mask excl_h5 (100, 100) layers (Some min_area) kern [Ellipsis] = Inr (Some fd)"
    by (simp add: generate_mask_def inc_all comb fd(1) getitem_slices_all)
  have lfw: "length fw = 30" using shfw by (metis length_map length_replicate)
  have rfw: "length (fw ! i) = 30" if "i < 30" for i
    using shfw that lfw by (metis nth_map nth_replicate)
  have "\<forall>r \<in> set fw. nat 20 \<le> length r"
  proof
    fix r assume "r \<in> set fw"
    then obtain i where "i < length fw" "fw ! i = r" by (metis in_set_conv_nth)
    then show "nat 20 \<le> length r" using rfw [of i] lfw by simp
  qed
  then have "map length ?win = replicate (nat 20 - nat 10) (nat 20 - nat 10)"
    using lfw by (intro getitem_slices_shape) simp_all
  then have shwin: "map length ?win = replicate 10 10" by simp
  have bW: "in_bounds ?W b"
    using bg(1,2) in_bounds_replicate [OF shape, of b] by (simp add: in_bounds_topleft)
  have cellwise: "(?win ! i ! j = fd ! (10 + i) ! (10 + j) \<or> ?win ! i ! j = 0)
      \<and> ((\<forall>q \<in> set (flood (FILTER_KERNELS kern) (positive whole) [(10 + i, 10 + j)] []).
              fst q < 30 \<and> snd q < 30)
           \<longrightarrow> ?win ! i ! j = fd ! (10 + i) ! (10 + j))"
    if ij: "i < 10" "j < 10" for i j
  proof -
    have "nat 20 \<le> length (fw ! (nat 10 + i))" using rfw [of "10 + i"] ij(1) by simp
    then have "?win ! i ! j = fw ! (nat 10 + i) ! (nat 10 + j)"
      using ij lfw by (intro getitem_slices_nth) simp_all
    then have w: "?win ! i ! j = item fw (10 + i, 10 + j)" by (simp add: item_def)
    have pW: "in_bounds ?W (10 + i, 10 + j)"
      using ij in_bounds_replicate [OF shape, of "(10 + i, 10 + j)"]
      by (simp add: in_bounds_topleft)
    from padded_cell [OF ex bW bg(3) fw(1) fd(1) pW] show ?thesis
      unfolding w by (simp add: item_def)
  qed
  show ?thesis
    using inc g1 g2 shwin cellwise by blast
qed


lemma stripe_shape: "map length stripe = replicate 100 100"
proof -
  have "map length stripe = replicate 15 100 @ replicate 1 100 @ replicate 84 100"
    by (simp add: stripe_def)
  also have "\<dots> = replicate (15 + 1 + 84) 100"
    by (simp only: replicate_add append_assoc)
  finally show ?thesis by simp
qed

lemma stripe_item:
  assumes "fst p < 100" and "snd p < 100"
  shows "item stripe p = (if fst p = 15 then 1 else 0)"
proof -
  consider "fst p < 15" | "fst p = 15" | "15 < fst p" by linarith
  then show ?thesis
  proof cases
    case 1
    then show ?thesis using assms(2) by (simp add: stripe_def item_def nth_append)
  next
    case 2
    then show ?thesis using assms(2) by (simp add: stripe_def item_def nth_append)
  next
    case 3
    then have "fst p - 15 - 1 < 84" using assms(1) by simp
    then show ?thesis
      using 3 assms(2) by (simp add: stripe_def item_def nth_append nth_Cons')
  qed
qed

lemma stripe_bounds: "in_bounds stripe p \<longleftrightarrow> fst p < 100 \<and> snd p < 100"
  by (rule in_bounds_replicate [OF stripe_shape])

lemma stripe_feature: "feature (positive stripe) p \<longleftrightarrow> fst p = 15 \<and> snd p < 100"
  using stripe_item [of p] by (auto simp: feature_positive stripe_bounds split: if_splits)

lemma min_counts_quarter: "real_of_int \<lceil>(1 / 4 :: real) / (81 / 10000)\<rceil> = 31"
proof -
  have "\<lceil>(1 / 4 :: real) / (81 / 10000)\<rceil> = 31"
    by (simp add: ceiling_eq_iff)
  then show ?thesis by simp
qed

lemma stripe_filtered: "area_filter stripe (1 / 4) Queen (81 / 10000) = Inr stripe"
proof -
  let ?s = "FILTER_KERNELS Queen"
  have ex: "(81 / 10000 :: real) \<noteq> 0" by simp
  have b: "in_bounds stripe (0, 0)" "\<not> 0 < item stripe (0, 0)"
    by (simp_all add: stripe_bounds stripe_item)
  from area_filter_regions [OF ex b, of "1 / 4" Queen] obtain out where
    out: "area_filter stripe (1 / 4) Queen (81 / 10000) = Inr out"
      "map length out = map length stripe"
      "\<forall>p. in_bounds stripe p \<longrightarrow> item out p =
         (if item stripe p > 0 \<and> real (card (region ?s (positive stripe) p)) < 31
          then 0 else item stripe p)"
    unfolding min_counts_quarter by blast
  have big: "\<not> real (card (region ?s (positive stripe) p)) < 31"
    if p: "in_bounds stripe p" "item stripe p > 0" for p
  proof -
    have fp: "feature (positive stripe) p" using p by (simp add: feature_positive)
    then have p15: "fst p = 15" "snd p < 100" by (simp_all add: stripe_feature)
    have row: "(15, j) \<in> region ?s (positive stripe) (15, 0)" if "j < 100" for j
      using row_run [of 0 j "positive stripe" 15 Queen] that by (simp add: stripe_feature)
    have "p \<in> region ?s (positive stripe) (15, 0)"
      using row [OF p15(2)] p15(1) by (cases p) simp
    then have "region ?s (positive stripe) p = region ?s (positive stripe) (15, 0)"
      by (rule region_eq)
    then have "{15} \<times> {..<100} \<subseteq> region ?s (positive stripe) p"
      using row by auto
    then have "card ({15 :: nat} \<times> {..<100 :: nat}) \<le> card (region ?s (positive stripe) p)"
      by (intro card_mono finite_region)
    then show ?thesis by (simp add: card_cartesian_product)
  qed
  have "out = stripe"
  proof (rule ndarray_eqI)
    show "map length out = map length stripe" by (rule out(2))
    fix p assume "in_bounds out p"
    then have pb: "in_bounds stripe p" using in_bounds_shape [OF out(2)] by simp
    show "item out p = item stripe p"
      using out(3) [rule_format, OF pb] big [OF pb] by auto
  qed
  then show ?thesis using out(1) by simp
qed

lemma stripe_padded_filtered:
  "area_filter (topleft 30 30 stripe) (1 / 4) Queen (81 / 10000)
     = Inr (replicate 30 (replicate 30 0))"
proof -
  let ?s = "FILTER_KERNELS Queen"
  let ?W = "topleft 30 30 stripe"
  have ex: "(81 / 10000 :: real) \<noteq> 0" by simp
  have shW: "map length ?W = replicate 30 30"
    using stripe_shape by (rule shape_topleft) simp_all
  have bW: "in_bounds ?W p \<longleftrightarrow> fst p < 30 \<and> snd p < 30" for p
    by (rule in_bounds_replicate [OF shW])
  have iW: "item ?W p = (if fst p = 15 then 1 else 0)" if "in_bounds ?W p" for p
    using that item_topleft [OF that] stripe_item [of p] by (simp add: bW)
  have b: "in_bounds ?W (0, 0)" "\<not> 0 < item ?W (0, 0)"
    using iW [of "(0, 0)"] by (simp_all add: bW)
  from area_filter_regions [OF ex b, of "1 / 4" Queen] obtain out where
    out: "area_filter ?W (1 / 4) Queen (81 / 10000) = Inr out"
      "map length out = map length ?W"
      "\<forall>p. in_bounds ?W p \<longrightarrow> item out p =
         (if item ?W p > 0 \<and> real (card (region ?s (positive ?W) p)) < 31
          then 0 else item ?W p)"
    unfolding min_counts_quarter by blast
  have fW: "feature (positive ?W) q \<longleftrightarrow> fst q = 15 \<and> snd q < 30" for q
    by (auto simp: positive_topleft feature_topleft stripe_feature)
  have small: "real (card (region ?s (positive ?W) p)) < 31"
    if p: "in_bounds ?W p" "item ?W p > 0" for p
  proof -
    have "feature (positive ?W) p" using p by (simp add: feature_positive)
    then have "region ?s (positive ?W) p \<subseteq> {q. feature (positive ?W) q}"
      using region_subset [of ?s "positive ?W" p] by auto
    also have "\<dots> \<subseteq> {15} \<times> {..<30}" by (auto simp: fW)
    finally have "card (region ?s (positive ?W) p) \<le> card ({15 :: nat} \<times> {..<30 :: nat})"
      by (intro card_mono) simp_all
    then show ?thesis by (simp add: card_cartesian_product)
  qed
  have "out = replicate 30 (replicate 30 0)"
  proof (rule ndarray_eqI)
    show "map length out = map length (replicate 30 (replicate 30 (0 :: float16)))"
      using out(2) shW by simp
    fix p assume "in_bounds out p"
    then have pb: "in_bounds ?W p" using in_bounds_shape [OF out(2)] by simp
    then have "item out p = 0"
      using out(3) [rule_format, OF pb] small [OF pb] iW [OF pb] by (auto split: if_splits)
    moreover have "item (replicate 30 (replicate 30 (0 :: float16))) p = 0"
      using pb by (simp add: bW item_def)
    ultimately show "item out p = item (replicate 30 (replicate 30 0)) p" by simp
  qed
  then show ?thesis using out(1) by simp
qed

lemma float16_zero_times_one: "float16_of_real 0 * float16_of_real 1 = 0"
  by code_simp

lemma float16_one_times_one: "float16_of_real 1 * float16_of_real 1 = 1"
  by code_simp

lemma stripe_weighted_all: "times_weight (astype_float16 stripe_raw) 1 = stripe"
  by (simp add: times_weight_def astype_float16_def stripe_def stripe_raw_def
      float16_zero_times_one float16_one_times_one)

lemma stripe_weighted:
  "times_weight (astype_float16 (topleft h w stripe_raw)) 1 = topleft h w stripe"
proof -
  have "topleft h w (times_weight (astype_float16 stripe_raw) 1) = topleft h w stripe"
    by (simp only: stripe_weighted_all)
  then show ?thesis
    by (simp add: times_weight_def astype_float16_def topleft_map)
qed

lemma stripe_windowed: "windowed_store stripe_store"
  by (simp add: windowed_store_def stripe_store_def)

lemma stripe_unfiltered:
  "generate_mask stripe_store (100, 100) [stripe_layer] None kern [Ellipsis] = Inr (Some stripe)"
  by (simp add: generate_mask_def apply_mask_def stripe_layer_def stripe_store_def
      stripe_weighted_all)

text \<open>
  Claim C1 as stated fails: with row 15 of the domain foreground and minimum area 0.25
  (31 pixels) the padded window holds 30 pixels of the row, so the mask returned for rows
  10:20, columns 10:20 is all zero, while filtering the whole domain keeps the row of 100
  pixels.
\<close>

theorem padded_filter_differs_counterexample:
  "generate_mask stripe_store (100, 100) [stripe_layer] (Some (1 / 4)) Queen
       [Slice (Some 10) (Some 20), Slice (Some 10) (Some 20)]
     = Inr (Some (replicate 10 (replicate 10 0)))
   \<and> generate_mask stripe_store (100, 100) [stripe_layer] (Some (1 / 4)) Queen [Ellipsis]
     = Inr (Some stripe)
   \<and> getitem_slices stripe ((Some 10, Some 20), (Some 10, Some 20))
       \<noteq> replicate 10 (replicate 10 0)"
proof (intro conjI)
  have inc: "increase_mask_slice (100, 100) [Slice (Some 10) (Some 20), Slice (Some 10) (Some 20)] 1
      = Inr ([Slice (Some 0) (Some 30), Slice (Some 0) (Some 30)],
             (Some 10, Some 20), (Some 10, Some 20))"
    by (simp add: increase_mask_slice_def)
  have rd: "stripe_store ''stripe'' [Slice (Some 0) (Some 30), Slice (Some 0) (Some 30)]
      = topleft 30 30 stripe_raw"
    using getitem_slices_topleft [of 30 30 stripe_raw] by (simp add: stripe_store_def)
  have crop: "getitem_slices (replicate 30 (replicate 30 (0 :: float16)))
        ((Some 10, Some 20), (Some 10, Some 20)) = replicate 10 (replicate 10 0)"
    by (simp add: getitem_slices_def py_slice_nonneg)
  show "generate_mask stripe_store (100, 100) [stripe_layer] (Some (1 / 4)) Queen
       [Slice (Some 10) (Some 20), Slice (Some 10) (Some 20)]
     = Inr (Some (replicate 10 (replicate 10 0)))"
    by (simp add: generate_mask_def inc apply_mask_def stripe_layer_def rd stripe_weighted
        stripe_padded_filtered crop)
next
  have inc_all: "increase_mask_slice (100, 100) [Ellipsis] 1
      = Inr ([Ellipsis], (None, None), (None, None))"
    by (simp add: increase_mask_slice_def)
  show "generate_mask stripe_store (100, 100) [stripe_layer] (Some (1 / 4)) Queen [Ellipsis]
     = Inr (Some stripe)"
    by (simp add: generate_mask_def inc_all apply_mask_def stripe_layer_def stripe_store_def
        stripe_weighted_all stripe_filtered getitem_slices_all)
next
  show "getitem_slices stripe ((Some 10, Some 20), (Some 10, Some 20))
       \<noteq> replicate 10 (replicate 10 0)"
  proof
    assume eq: "getitem_slices stripe ((Some 10, Some 20), (Some 10, Some 20))
       = replicate 10 (replicate 10 0)"
    have l: "length stripe = 100" using stripe_shape by (metis length_map length_replicate)
    have r: "length (stripe ! 15) = 100" by (simp add: stripe_def nth_append)
    have "getitem_slices stripe ((Some 10, Some 20), (Some 10, Some 20)) ! 5 ! 5
        = stripe ! (nat 10 + 5) ! (nat 10 + 5)"
      using l r by (intro getitem_slices_nth) simp_all
    also have "\<dots> = item stripe (15, 15)" by (simp add: item_def)
    also have "\<dots> = 1" by (simp add: stripe_item)
    finally show False unfolding eq by simp
  qed
qed

theorem padded_window_filter_witness:
  "windowed_store stripe_store
   \<and> generate_mask stripe_store (100, 100) [stripe_layer] None Queen [Ellipsis] = Inr (Some stripe)
   \<and> map length stripe = replicate 100 100
   \<and> fst (0 :: nat, 0 :: nat) < 30 \<and> snd (0 :: nat, 0 :: nat) < 30 \<and> \<not> 0 < item stripe (0, 0)
   \<and> increase_mask_slice (100, 100) [Slice (Some 10) (Some 20), Slice (Some 10) (Some 20)] 1
           = Inr ([Slice (Some 0) (Some 30), Slice (Some 0) (Some 30)],
                  (Some 10, Some 20), (Some 10, Some 20))
   \<and> (\<exists>win filtered.
         generate_mask stripe_store (100, 100) [stripe_layer] (Some (1 / 4)) Queen
             [Slice (Some 10) (Some 20), Slice (Some 10) (Some 20)] = Inr (Some win)
       \<and> generate_mask stripe_store (100, 100) [stripe_layer] (Some (1 / 4)) Queen [Ellipsis]
             = Inr (Some filtered)
       \<and> map length win = replicate 10 10
       \<and> (\<forall>i < 10. \<forall>j < 10.
             (win ! i ! j = filtered ! (10 + i) ! (10 + j) \<or> win ! i ! j = 0)
           \<and> ((\<forall>q \<in> set (flood (FILTER_KERNELS Queen) (positive stripe) [(10 + i, 10 + j)] []).
                   fst q < 30 \<and> snd q < 30)
                \<longrightarrow> win ! i ! j = filtered ! (10 + i) ! (10 + j))))"
proof -
  have h: "windowed_store stripe_store"
    "generate_mask stripe_store (100, 100) [stripe_layer] None Queen [Ellipsis] = Inr (Some stripe)"
    "map length stripe = replicate 100 100"
    "fst (0 :: nat, 0 :: nat) < 30" "snd (0 :: nat, 0 :: nat) < 30" "\<not> 0 < item stripe (0, 0)"
    by (simp_all add: stripe_windowed stripe_unfiltered stripe_shape stripe_item)
  show ?thesis
    using h padded_window_filter [OF h, of "1 / 4"] by blast
qed


end
